theory Spec2Isabelle
  imports Complex_Main "HOL-Library.AList" "HOL-Library.Multiset" "HOL-Library.Sublist"
begin

section \<open>Common conventions\<close>

text \<open>
  Python floats are modelled by \<^typ>\<open>real\<close> (exact arithmetic); the one place of the
  modelled code where numpy produces a NaN instead of a number (a quotient \<open>0.0/0.0\<close>) is
  written out as an optional value. Python's unbounded integers are \<^typ>\<open>int\<close>.
  Every \<open>raise\<close> of the source is a value \<open>Inl e\<close> of a sum type.
\<close>

datatype py_error =
    ValueError
  | TypeError
  | IndexError
  | KeyError
  | RuntimeError
  | AssertionError
  | PyException

section \<open>face\_recognition\_advanced.py: comparison of two descriptors\<close>

text \<open>
  The \<open>tolerance\<close> argument is annotated \<open>Optional[float]\<close>, but the HTTP layer hands over
  the JSON field \<open>tolerance\<close> unchecked (\<open>data.get('tolerance', 0.6)\<close>).
  \<open>TolNonNumeric\<close> stands for a non-empty JSON string that is not a float literal, such as
  \<open>"abc"\<close>: it is truthy, numpy cannot order a float against it, and \<open>float()\<close> rejects it.
\<close>

datatype tolerance_arg = TolNone | TolFloat real | TolNonNumeric

record comparison =
  is_match :: bool
  distance :: real
  similarity :: "real option"   \<comment> \<open>\<open>None\<close> is NaN\<close>
  confidence :: real
  tolerance_used :: real

definition linalg_norm :: "real list \<Rightarrow> real" where
  "linalg_norm v = sqrt (\<Sum>x\<leftarrow>v. x * x)"

definition np_dot :: "real list \<Rightarrow> real list \<Rightarrow> real" where
  "np_dot a b = (\<Sum>(x, y)\<leftarrow>zip a b. x * y)"

definition np_sub :: "real list \<Rightarrow> real list \<Rightarrow> real list" where
  "np_sub a b = map (\<lambda>(x, y). x - y) (zip a b)"

text \<open>\<open>if tolerance is None: tolerance = self.tolerance\<close>\<close>

definition resolve_tolerance :: "real \<Rightarrow> tolerance_arg \<Rightarrow> tolerance_arg" where
  "resolve_tolerance self_tolerance tolerance =
     (case tolerance of TolNone \<Rightarrow> TolFloat self_tolerance | t \<Rightarrow> t)"

text \<open>
  The body of the \<open>try\<close> block of \<open>compare_faces\<close>. Two one-dimensional arrays of different
  lengths make numpy raise \<open>ValueError\<close> (at the subtraction, or, when broadcasting lets the
  subtraction through, at \<open>np.dot\<close>). A zero vector makes the cosine quotient \<open>0.0/0.0\<close>,
  which numpy evaluates to NaN with a warning, not an exception.
\<close>

definition compare_faces_try ::
  "real \<Rightarrow> real list \<Rightarrow> real list \<Rightarrow> tolerance_arg \<Rightarrow> py_error + comparison" where
  "compare_faces_try self_tolerance descriptor1 descriptor2 tolerance =
     (if length descriptor1 \<noteq> length descriptor2 then Inl ValueError
      else
        let dist = linalg_norm (np_sub descriptor1 descriptor2);
            denom = linalg_norm descriptor1 * linalg_norm descriptor2;
            cosine_similarity =
              (if denom = 0 then None else Some (np_dot descriptor1 descriptor2 / denom))
        in case resolve_tolerance self_tolerance tolerance of
             TolFloat tol \<Rightarrow>
               Inr \<lparr> is_match = (dist \<le> tol),
                     distance = dist,
                     similarity = cosine_similarity,
                     confidence = max 0 (1 - dist / 1.2),
                     tolerance_used = tol \<rparr>
           | _ \<Rightarrow> Inl TypeError)"

text \<open>The \<open>except\<close> handler: \<open>float(tolerance or self.tolerance)\<close> is evaluated inside it.\<close>

definition compare_faces_except :: "real \<Rightarrow> tolerance_arg \<Rightarrow> py_error + comparison" where
  "compare_faces_except self_tolerance tolerance =
     (case tolerance of
        TolNonNumeric \<Rightarrow> Inl ValueError
      | TolNone \<Rightarrow>
          Inr \<lparr> is_match = False, distance = 999.0, similarity = Some 0.0,
                confidence = 0.0, tolerance_used = self_tolerance \<rparr>
      | TolFloat t \<Rightarrow>
          Inr \<lparr> is_match = False, distance = 999.0, similarity = Some 0.0,
                confidence = 0.0,
                tolerance_used = (if t = 0 then self_tolerance else t) \<rparr>)"

definition compare_faces ::
  "real \<Rightarrow> real list \<Rightarrow> real list \<Rightarrow> tolerance_arg \<Rightarrow> py_error + comparison" where
  "compare_faces self_tolerance descriptor1 descriptor2 tolerance =
     (case compare_faces_try self_tolerance descriptor1 descriptor2 tolerance of
        Inr c \<Rightarrow> Inr c
      | Inl e \<Rightarrow> compare_faces_except self_tolerance tolerance)"

section \<open>face\_recognition\_advanced.py: matching a collection\<close>

text \<open>
  A photo of the collection is a dictionary; a key that may be missing is an optional
  field. \<open>descriptor\<close> is \<open>None\<close> when the key is missing or its value is \<open>None\<close>.
  The key \<open>'id'\<close> is read with \<open>photo_data['id']\<close>, which raises \<open>KeyError\<close> when it is
  missing; the other keys are read with \<open>get\<close> and a default.
\<close>

record photo_data =
  pd_id :: "string option"   \<comment> \<open>the key \<open>'id'\<close>\<close>
  descriptor :: "real list option"
  cloudinaryUrl :: "string option"
  originalName :: "string option"
  uploadedBy :: "string option"
  uploadedAt :: "string option"

record matched_photo =
  mp_id :: string
  mp_score :: real
  mp_similarity :: "real option"
  mp_distance :: real
  mp_cloudinaryUrl :: string
  mp_originalName :: string
  mp_uploadedBy :: string
  mp_uploadedAt :: string
  mp_tolerance_used :: real

definition dict_get :: "string option \<Rightarrow> string \<Rightarrow> string" where
  "dict_get field dflt = (case field of None \<Rightarrow> dflt | Some v \<Rightarrow> v)"

text \<open>\<open>'descriptor' not in photo_data or not photo_data['descriptor']\<close>\<close>

definition lacks_descriptor :: "photo_data \<Rightarrow> bool" where
  "lacks_descriptor p = (case descriptor p of None \<Rightarrow> True | Some d \<Rightarrow> d = [])"

definition make_match :: "string \<Rightarrow> photo_data \<Rightarrow> comparison \<Rightarrow> matched_photo" where
  "make_match i p c =
     \<lparr> mp_id = i,
       mp_score = confidence c,
       mp_similarity = similarity c,
       mp_distance = distance c,
       mp_cloudinaryUrl = dict_get (cloudinaryUrl p) [],
       mp_originalName = dict_get (originalName p) [],
       mp_uploadedBy = dict_get (uploadedBy p) [],
       mp_uploadedAt = dict_get (uploadedAt p) [],
       mp_tolerance_used = tolerance_used c \<rparr>"

text \<open>
  The \<open>for\<close> loop of \<open>find_matching_photos\<close>, with \<open>matched_photos\<close> as accumulator. An
  exception of \<open>compare_faces\<close> or a missing \<open>'id'\<close> key leaves the loop.
\<close>

fun match_loop ::
  "real \<Rightarrow> real list \<Rightarrow> tolerance_arg \<Rightarrow> matched_photo list \<Rightarrow> photo_data list
     \<Rightarrow> py_error + matched_photo list" where
  "match_loop self_tolerance user_descriptor tolerance matched_photos [] = Inr matched_photos"
| "match_loop self_tolerance user_descriptor tolerance matched_photos (p # ps) =
     (if lacks_descriptor p
      then match_loop self_tolerance user_descriptor tolerance matched_photos ps
      else
        case compare_faces self_tolerance user_descriptor (the (descriptor p)) tolerance of
          Inl e \<Rightarrow> Inl e
        | Inr c \<Rightarrow>
            if is_match c \<and> confidence c \<ge> 0.4
            then (case pd_id p of
                    None \<Rightarrow> Inl KeyError
                  | Some i \<Rightarrow>
                      match_loop self_tolerance user_descriptor tolerance
                        (matched_photos @ [make_match i p c]) ps)
            else match_loop self_tolerance user_descriptor tolerance matched_photos ps)"

text \<open>
  \<open>list.sort(key=lambda x: x['score'], reverse=True)\<close> is stable: \<open>sort_key\<close> on the
  negated score keeps equal scores in their order of insertion.
\<close>

definition sort_by_score_desc :: "('a \<Rightarrow> real) \<Rightarrow> 'a list \<Rightarrow> 'a list" where
  "sort_by_score_desc score xs = sort_key (\<lambda>x. - score x) xs"

text \<open>
  Vocabulary for stating what the loop keeps: whether a photo passes both gates, and the
  entry the loop appends for it.
\<close>

definition passes_gates :: "real \<Rightarrow> real list \<Rightarrow> tolerance_arg \<Rightarrow> photo_data \<Rightarrow> bool" where
  "passes_gates self_tolerance user_descriptor tolerance p =
     (\<not> lacks_descriptor p \<and>
      (case compare_faces self_tolerance user_descriptor (the (descriptor p)) tolerance of
         Inl e \<Rightarrow> False
       | Inr c \<Rightarrow> is_match c \<and> confidence c \<ge> 0.4))"

definition match_of :: "real \<Rightarrow> real list \<Rightarrow> tolerance_arg \<Rightarrow> photo_data \<Rightarrow> matched_photo" where
  "match_of self_tolerance user_descriptor tolerance p =
     make_match (the (pd_id p)) p
       (projr (compare_faces self_tolerance user_descriptor (the (descriptor p)) tolerance))"

definition find_matching_photos ::
  "bool \<Rightarrow> real \<Rightarrow> real list \<Rightarrow> photo_data list \<Rightarrow> tolerance_arg
     \<Rightarrow> py_error + matched_photo list" where
  "find_matching_photos is_initialized self_tolerance user_descriptor photo_collection tolerance =
     (if \<not> is_initialized then Inl PyException
      else
        case match_loop self_tolerance user_descriptor
               (resolve_tolerance self_tolerance tolerance) [] photo_collection of
             Inl e \<Rightarrow> Inl PyException
           | Inr matched_photos \<Rightarrow> Inr (sort_by_score_desc mp_score matched_photos))"

section \<open>face\_recognition\_advanced.py: duplicate detections\<close>

text \<open>
  A face location is the tuple \<open>(top, right, bottom, left)\<close> of pixel offsets. The areas
  are integers, so the comparison with \<open>0.3 * min(...)\<close> is the comparison of \<open>10 * overlap\<close>
  with \<open>3 * min(...)\<close> (lemma \<open>overlaps_beyond_threshold_int\<close>).
\<close>

type_synonym face_location = "int \<times> int \<times> int \<times> int"

definition overlap_area :: "face_location \<Rightarrow> face_location \<Rightarrow> int" where
  "overlap_area face existing_face =
     (case face of (f_top, f_right, f_bottom, f_left) \<Rightarrow>
      case existing_face of (ex_top, ex_right, ex_bottom, ex_left) \<Rightarrow>
        max 0 (min f_right ex_right - max f_left ex_left)
        * max 0 (min f_bottom ex_bottom - max f_top ex_top))"

definition box_area :: "face_location \<Rightarrow> int" where
  "box_area face =
     (case face of (f_top, f_right, f_bottom, f_left) \<Rightarrow> (f_right - f_left) * (f_bottom - f_top))"

text \<open>\<open>overlap_area > 0.3 * min(face_area, existing_area)\<close>\<close>

definition overlaps_beyond_threshold :: "face_location \<Rightarrow> face_location \<Rightarrow> bool" where
  "overlaps_beyond_threshold face existing_face =
     (real_of_int (overlap_area face existing_face)
        > 0.3 * real_of_int (min (box_area face) (box_area existing_face)))"

fun unique_faces_loop :: "face_location list \<Rightarrow> face_location list \<Rightarrow> face_location list" where
  "unique_faces_loop unique_faces [] = unique_faces"
| "unique_faces_loop unique_faces (face # rest) =
     unique_faces_loop
       (if list_ex (overlaps_beyond_threshold face) unique_faces
        then unique_faces else unique_faces @ [face])
       rest"

definition remove_duplicate_faces :: "face_location list \<Rightarrow> face_location list" where
  "remove_duplicate_faces face_locations =
     (if length face_locations \<le> 1 then face_locations
      else unique_faces_loop [] face_locations)"

section \<open>face\_recognition\_advanced.py: the descriptor cache\<close>

text \<open>
  \<open>time.time()\<close> is the argument \<open>now\<close> of \<open>get\<close> and \<open>set\<close>. \<open>list.remove\<close> deletes the first
  occurrence and raises \<open>ValueError\<close> when there is none; \<open>list.pop(0)\<close> raises
  \<open>IndexError\<close> on an empty list.
\<close>

record 'v lru_cache =
  capacity :: int
  ttl :: int
  store :: "string \<rightharpoonup> (real \<times> 'v)"
  order :: "string list"

definition lru_cache_init :: "int \<Rightarrow> int \<Rightarrow> 'v lru_cache" where
  "lru_cache_init cap ttl_seconds =
     \<lparr> capacity = cap, ttl = ttl_seconds, store = Map.empty, order = [] \<rparr>"

definition cache_delete :: "string \<Rightarrow> 'v lru_cache \<Rightarrow> 'v lru_cache" where
  "cache_delete key c =
     c\<lparr> store := (store c)(key := None), order := remove1 key (order c) \<rparr>"

definition cache_get :: "real \<Rightarrow> string \<Rightarrow> 'v lru_cache \<Rightarrow> 'v option \<times> 'v lru_cache" where
  "cache_get now key c =
     (case store c key of
        None \<Rightarrow> (None, c)
      | Some (ts, v) \<Rightarrow>
          if now - ts \<le> real_of_int (ttl c)
          then (Some v, c\<lparr> order := remove1 key (order c) @ [key] \<rparr>)
          else (None, cache_delete key c))"

definition cache_set :: "real \<Rightarrow> string \<Rightarrow> 'v \<Rightarrow> 'v lru_cache \<Rightarrow> py_error + 'v lru_cache" where
  "cache_set now key v c =
     (if store c key \<noteq> None then
        (if key \<in> set (order c)
         then Inr (c\<lparr> store := (store c)(key \<mapsto> (now, v)),
                      order := remove1 key (order c) @ [key] \<rparr>)
         else Inl ValueError)
      else if int (length (order c)) \<ge> capacity c then
        (case order c of
           [] \<Rightarrow> Inl IndexError
         | evict # rest \<Rightarrow>
             Inr (c\<lparr> store := ((store c)(evict := None))(key \<mapsto> (now, v)),
                      order := rest @ [key] \<rparr>))
      else Inr (c\<lparr> store := (store c)(key \<mapsto> (now, v)), order := order c @ [key] \<rparr>))"

text \<open>The representation invariant of the class: \<open>order\<close> lists the stored keys once each.\<close>

definition cache_inv :: "'v lru_cache \<Rightarrow> bool" where
  "cache_inv c = (distinct (order c) \<and> set (order c) = dom (store c))"

section \<open>face\_recognition\_advanced.py: batch analysis\<close>

text \<open>
  What \<open>_process\<close> does with one URL is the argument \<open>get_descriptors\<close>: \<open>Inl e\<close> when
  \<open>get_face_descriptors_from_url\<close> raised, \<open>Inr None\<close> when it returned \<open>None\<close> (the image
  did not load, or no face was found), \<open>Inr (Some ds)\<close> when it returned a list.
  \<open>executor.map\<close> yields the outcomes in the order of the URLs.
\<close>

record batch_photo =
  bp_url :: string
  bp_descriptors :: "real list list"
  bp_face_count :: nat

record batch_results =
  processed :: nat
  faces_found :: nat
  failed :: nat
  photo_data :: "batch_photo list"

definition process_url ::
  "(string \<Rightarrow> py_error + real list list option) \<Rightarrow> string
     \<Rightarrow> bool \<times> string \<times> real list list option" where
  "process_url get_descriptors url =
     (case get_descriptors url of
        Inr descriptors \<Rightarrow> (True, url, descriptors)
      | Inl e \<Rightarrow> (False, url, None))"

definition batch_step ::
  "batch_results \<Rightarrow> bool \<times> string \<times> real list list option \<Rightarrow> batch_results" where
  "batch_step results outcome =
     (case outcome of (ok, url, descriptors) \<Rightarrow>
        let results = results\<lparr> processed := processed results + 1 \<rparr> in
        if ok \<and> descriptors \<noteq> None \<and> the descriptors \<noteq> [] then
          results\<lparr> faces_found := faces_found results + 1,
                   photo_data := photo_data results
                     @ [\<lparr> bp_url = url, bp_descriptors = the descriptors,
                           bp_face_count = length (the descriptors) \<rparr>] \<rparr>
        else if \<not> ok then results\<lparr> failed := failed results + 1 \<rparr>
        else results)"

definition batch_analyze_photos ::
  "(string \<Rightarrow> py_error + real list list option) \<Rightarrow> string list \<Rightarrow> batch_results" where
  "batch_analyze_photos get_descriptors photo_urls =
     foldl batch_step
       \<lparr> processed = 0, faces_found = 0, failed = 0, photo_data = [] \<rparr>
       (map (process_url get_descriptors) photo_urls)"

text \<open>
  The three kinds of outcome for a URL, for stating what the counters count: a non-empty
  list of descriptors, an exception, and a soft failure (\<open>None\<close> or an empty list).
\<close>

definition has_faces :: "(string \<Rightarrow> py_error + real list list option) \<Rightarrow> string \<Rightarrow> bool" where
  "has_faces get_descriptors url =
     (case get_descriptors url of Inr (Some ds) \<Rightarrow> ds \<noteq> [] | Inr None \<Rightarrow> False | Inl e \<Rightarrow> False)"

definition raised :: "(string \<Rightarrow> py_error + real list list option) \<Rightarrow> string \<Rightarrow> bool" where
  "raised get_descriptors url =
     (case get_descriptors url of Inl e \<Rightarrow> True | Inr r \<Rightarrow> False)"

definition soft_empty :: "(string \<Rightarrow> py_error + real list list option) \<Rightarrow> string \<Rightarrow> bool" where
  "soft_empty get_descriptors url =
     (case get_descriptors url of Inr (Some ds) \<Rightarrow> ds = [] | Inr None \<Rightarrow> True | Inl e \<Rightarrow> False)"

section \<open>insightface\_faiss\_service.py: the per-event index\<close>

text \<open>
  A two-dimensional numpy array is its width together with its rows, so that the empty
  matrix \<open>np.zeros((0, dim))\<close> keeps its width. The FAISS \<open>IndexFlatIP\<close> object holds the
  same data: its dimension \<open>d\<close> and the vectors added so far.
\<close>

record matrix =
  width :: nat
  rows :: "real list list"

record index_entry =
  index :: matrix
  ids :: "string list"
  vectors :: matrix

record insightface_service =
  initialized :: bool
  event_indices :: "string \<rightharpoonup> index_entry"

text \<open>
  What lies outside the repository is an argument: whether the imports and the model
  set-up of \<open>initialize\<close> succeed (a failure is the value \<open>RuntimeError\<close>, which is what
  \<open>_try_imports\<close> raises), what \<open>compute_embeddings_from_url\<close> returns for a URL
  (download and model inference), and what \<open>index.search\<close> of FAISS returns (the pairs of
  \<open>zip(D[0], I[0])\<close>).
\<close>

record environment =
  init_succeeds :: bool
  compute_embeddings_from_url :: "string \<Rightarrow> py_error + real list list option"
  index_search :: "matrix \<Rightarrow> real list \<Rightarrow> int \<Rightarrow> py_error + (real \<times> int) list"

definition initialize :: "environment \<Rightarrow> insightface_service \<Rightarrow> py_error + insightface_service" where
  "initialize env s =
     (if initialized s then Inr s
      else if init_succeeds env then Inr (s\<lparr> initialized := True \<rparr>)
      else Inl RuntimeError)"

text \<open>\<open>vec / (np.linalg.norm(vec) + 1e-8)\<close>\<close>

definition unit_normalize :: "real list \<Rightarrow> real list" where
  "unit_normalize vec = map (\<lambda>x. x / (linalg_norm vec + 1 / 10 ^ 8)) vec"

text \<open>The decimal numeral that an f-string prints for a non-negative integer.\<close>

fun str_nat :: "nat \<Rightarrow> string" where
  "str_nat n =
     (if n < 10 then [''0123456789'' ! n]
      else str_nat (n div 10) @ [''0123456789'' ! (n mod 10)])"

declare str_nat.simps [simp del]

definition face_id :: "string \<Rightarrow> nat \<Rightarrow> string" where
  "face_id photo_id i = photo_id @ ''#'' @ str_nat i"

definition get_or_create_index ::
  "insightface_service \<Rightarrow> string \<Rightarrow> nat \<Rightarrow> insightface_service" where
  "get_or_create_index s event_id d =
     (case event_indices s event_id of
        Some entry \<Rightarrow> s
      | None \<Rightarrow>
          s\<lparr> event_indices := (event_indices s)(event_id \<mapsto>
               \<lparr> index = \<lparr> width = d, rows = [] \<rparr>,
                 ids = [],
                 vectors = \<lparr> width = d, rows = [] \<rparr> \<rparr>) \<rparr>)"

definition np_vstack :: "matrix \<Rightarrow> real list \<Rightarrow> py_error + matrix" where
  "np_vstack m v =
     (if length v \<noteq> width m then Inl ValueError else Inr (m\<lparr> rows := rows m @ [v] \<rparr>))"

definition index_add :: "matrix \<Rightarrow> real list \<Rightarrow> py_error + matrix" where
  "index_add m v =
     (if length v \<noteq> width m then Inl AssertionError else Inr (m\<lparr> rows := rows m @ [v] \<rparr>))"

text \<open>
  The appending loop of \<open>ingest\<close>. \<open>index.add\<close> and \<open>ids.append\<close> change the entry in
  place, while the stacked matrix is the local variable \<open>vectors\<close>, stored into the entry
  only after the loop.
\<close>

fun append_loop ::
  "index_entry \<Rightarrow> matrix \<Rightarrow> (real list \<times> string) list
     \<Rightarrow> py_error option \<times> index_entry \<times> matrix" where
  "append_loop entry vecs [] = (None, entry, vecs)"
| "append_loop entry vecs ((v, pid) # rest) =
     (case np_vstack vecs v of
        Inl e \<Rightarrow> (Some e, entry, vecs)
      | Inr vecs' \<Rightarrow>
          (case index_add (index entry) v of
             Inl e \<Rightarrow> (Some e, entry, vecs')
           | Inr index' \<Rightarrow>
               append_loop (entry\<lparr> index := index', ids := ids entry @ [pid] \<rparr>) vecs' rest))"

definition store_rows ::
  "insightface_service \<Rightarrow> string \<Rightarrow> (real list \<times> string) list
     \<Rightarrow> (py_error + bool) \<times> insightface_service" where
  "store_rows s event_id to_add =
     (let s' = get_or_create_index s event_id (length (fst (hd to_add)));
          entry = the (event_indices s' event_id)
      in case append_loop entry (vectors entry) to_add of
           (Some e, entry', vecs') \<Rightarrow>
             (Inl e, s'\<lparr> event_indices := (event_indices s')(event_id \<mapsto> entry') \<rparr>)
         | (None, entry', vecs') \<Rightarrow>
             (Inr True,
              s'\<lparr> event_indices :=
                    (event_indices s')(event_id \<mapsto> entry'\<lparr> vectors := vecs' \<rparr>) \<rparr>))"

text \<open>
  \<open>ingest\<close> returns its outcome together with the service as the call leaves it.
  \<open>not image_url\<close> holds for \<open>None\<close> and for the empty string, \<open>not vecs\<close> for \<open>None\<close> and
  for the empty list.
\<close>

definition ingest ::
  "environment \<Rightarrow> insightface_service \<Rightarrow> string \<Rightarrow> string \<Rightarrow> string option
     \<Rightarrow> real list option \<Rightarrow> (py_error + bool) \<times> insightface_service" where
  "ingest env s event_id photo_id image_url embedding =
     (case initialize env s of
        Inl e \<Rightarrow> (Inl e, s)
      | Inr s1 \<Rightarrow>
          (case embedding of
             None \<Rightarrow>
               (if image_url = None \<or> image_url = Some [] then (Inl ValueError, s1)
                else
                  case compute_embeddings_from_url env (the image_url) of
                    Inl e \<Rightarrow> (Inl e, s1)
                  | Inr None \<Rightarrow> (Inr False, s1)
                  | Inr (Some vecs) \<Rightarrow>
                      if vecs = [] then (Inr False, s1)
                      else store_rows s1 event_id
                             (zip vecs (map (face_id photo_id) [0..<length vecs])))
           | Some emb \<Rightarrow> store_rows s1 event_id [(unit_normalize emb, photo_id)]))"

text \<open>
  Vocabulary for stating what a scope holds: its identifiers, the rows of its matrix and of
  its FAISS index (all empty for a scope that does not exist), and whether vectors of
  width \<open>d\<close> fit it (a scope that does not exist yet takes any width).
\<close>

definition scope_ids :: "insightface_service \<Rightarrow> string \<Rightarrow> string list" where
  "scope_ids s event_id = (case event_indices s event_id of None \<Rightarrow> [] | Some entry \<Rightarrow> ids entry)"

definition scope_vectors :: "insightface_service \<Rightarrow> string \<Rightarrow> real list list" where
  "scope_vectors s event_id =
     (case event_indices s event_id of None \<Rightarrow> [] | Some entry \<Rightarrow> rows (vectors entry))"

definition scope_index_rows :: "insightface_service \<Rightarrow> string \<Rightarrow> real list list" where
  "scope_index_rows s event_id =
     (case event_indices s event_id of None \<Rightarrow> [] | Some entry \<Rightarrow> rows (index entry))"

definition scope_accepts :: "insightface_service \<Rightarrow> string \<Rightarrow> nat \<Rightarrow> bool" where
  "scope_accepts s event_id d =
     (case event_indices s event_id of
        None \<Rightarrow> True
      | Some entry \<Rightarrow> width (index entry) = d \<and> width (vectors entry) = d)"

section \<open>insightface\_faiss\_service.py: search\<close>

record search_result =
  sr_id :: string
  sr_score :: real

text \<open>
  The loop over \<open>zip(D[0], I[0])\<close>: \<open>ids[idx]\<close> is read only for a non-negative index whose
  score passes the threshold, and raises \<open>IndexError\<close> beyond the list.
\<close>

fun collect_results ::
  "string list \<Rightarrow> real \<Rightarrow> search_result list \<Rightarrow> (real \<times> int) list
     \<Rightarrow> py_error + search_result list" where
  "collect_results ids_list threshold results [] = Inr results"
| "collect_results ids_list threshold results ((score, idx) # rest) =
     (if idx < 0 then collect_results ids_list threshold results rest
      else if score \<ge> threshold then
        (if nat idx < length ids_list
         then collect_results ids_list threshold
                (results @ [\<lparr> sr_id = ids_list ! nat idx, sr_score = score \<rparr>]) rest
         else Inl IndexError)
      else collect_results ids_list threshold results rest)"

text \<open>\<open>r["id"].split("#", 1)[0]\<close>: the text before the first \<open>#\<close>.\<close>

definition base_id :: "string \<Rightarrow> string" where
  "base_id i = takeWhile (\<lambda>c. c \<noteq> CHR ''#'') i"

text \<open>
  The dictionary \<open>grouped\<close> keeps its keys in order of first insertion, which is the
  behaviour of \<open>AList.update\<close> on an association list.
  \<open>grouped[base_id] = max(grouped.get(base_id, 0.0), r["score"])\<close>
\<close>

definition grouped_get :: "(string \<times> real) list \<Rightarrow> string \<Rightarrow> real \<Rightarrow> real" where
  "grouped_get grouped k dflt = (case map_of grouped k of None \<Rightarrow> dflt | Some v \<Rightarrow> v)"

fun group_loop :: "(string \<times> real) list \<Rightarrow> search_result list \<Rightarrow> (string \<times> real) list" where
  "group_loop grouped [] = grouped"
| "group_loop grouped (r # rs) =
     group_loop
       (AList.update (base_id (sr_id r))
          (max (grouped_get grouped (base_id (sr_id r)) 0.0) (sr_score r)) grouped)
       rs"

definition group_and_sort :: "search_result list \<Rightarrow> search_result list" where
  "group_and_sort results =
     sort_by_score_desc sr_score
       (map (\<lambda>(pid, sc). \<lparr> sr_id = pid, sr_score = sc \<rparr>) (group_loop [] results))"

definition match_faces ::
  "environment \<Rightarrow> insightface_service \<Rightarrow> string \<Rightarrow> real list \<Rightarrow> int \<Rightarrow> real
     \<Rightarrow> (py_error + search_result list) \<times> insightface_service" where
  "match_faces env s event_id query_embedding top_k threshold =
     (case initialize env s of
        Inl e \<Rightarrow> (Inl e, s)
      | Inr s1 \<Rightarrow>
          (case event_indices s1 event_id of
             None \<Rightarrow> (Inr [], s1)
           | Some entry \<Rightarrow>
               if length (ids entry) = 0 then (Inr [], s1)
               else
                 (case index_search env (index entry) (unit_normalize query_embedding)
                         (min top_k (int (length (ids entry)))) of
                    Inl e \<Rightarrow> (Inl e, s1)
                  | Inr hits \<Rightarrow>
                      (case collect_results (ids entry) threshold [] hits of
                         Inl e \<Rightarrow> (Inl e, s1)
                       | Inr results \<Rightarrow> (Inr (group_and_sort results), s1)))))"

text \<open>
  What the loop over the hits keeps, for stating the results: the hits with a non-negative
  index and a score at or above the threshold, each turned into an entry.
\<close>

definition kept_hits :: "real \<Rightarrow> (real \<times> int) list \<Rightarrow> (real \<times> int) list" where
  "kept_hits threshold hits = filter (\<lambda>(score, idx). 0 \<le> idx \<and> threshold \<le> score) hits"

definition hit_result :: "string list \<Rightarrow> real \<times> int \<Rightarrow> search_result" where
  "hit_result ids_list hit =
     (case hit of (score, idx) \<Rightarrow> \<lparr> sr_id = ids_list ! nat idx, sr_score = score \<rparr>)"

section \<open>Example inputs\<close>

text \<open>Concrete collections on which the theorems below are exercised.\<close>

definition photo_with :: "string option \<Rightarrow> real list option \<Rightarrow> photo_data" where
  "photo_with i d = \<lparr> pd_id = i, descriptor = d, cloudinaryUrl = None, originalName = None,
                     uploadedBy = None, uploadedAt = None \<rparr>"

definition example_collection :: "photo_data list" where
  "example_collection =
     [photo_with (Some ''far'') (Some [3, 4]),
      photo_with (Some ''weak'') (Some [0, 0.9]),
      photo_with (Some ''near'') (Some [0, 0.6]),
      photo_with (Some ''none'') None,
      photo_with (Some ''short'') (Some [1]),
      photo_with (Some ''same'') (Some [0, 0])]"


definition example_match :: "string \<Rightarrow> real \<Rightarrow> real \<Rightarrow> real \<Rightarrow> matched_photo" where
  "example_match i sc d t =
     \<lparr> mp_id = i, mp_score = sc, mp_similarity = None, mp_distance = d,
       mp_cloudinaryUrl = [], mp_originalName = [], mp_uploadedBy = [], mp_uploadedAt = [],
       mp_tolerance_used = t \<rparr>"

definition example_cache :: "nat lru_cache" where
  "example_cache =
     \<lparr> capacity = 2, ttl = 10, store = [''a'' \<mapsto> (0, 1), ''b'' \<mapsto> (1, 2)],
       order = [''a'', ''b''] \<rparr>"

definition example_fetch :: "string \<Rightarrow> py_error + real list list option" where
  "example_fetch url =
     (if url = ''face'' then Inr (Some [[0, 0]])
      else if url = ''boom'' then Inl PyException
      else if url = ''empty'' then Inr (Some [])
      else Inr None)"

text \<open>
  A stand-in for \<open>IndexFlatIP.search\<close> on the examples: the inner product of the query with
  every stored row, the best \<open>k\<close> of them in descending order, each with its row number.
\<close>

definition exact_inner_product_search ::
  "matrix \<Rightarrow> real list \<Rightarrow> int \<Rightarrow> py_error + (real \<times> int) list" where
  "exact_inner_product_search m q k =
     (if k \<le> 0 then Inl AssertionError
      else Inr (take (nat k)
                  (sort_by_score_desc fst
                     (zip (map (np_dot q) (rows m)) (map int [0..<length (rows m)])))))"

definition example_env :: environment where
  "example_env =
     \<lparr> init_succeeds = True,
       compute_embeddings_from_url =
         (\<lambda>url. if url = ''two-faces'' then Inr (Some [[- 0.6, 0.8], [- 0.8, 0.6]])
               else Inr None),
       index_search = exact_inner_product_search \<rparr>"

definition broken_env :: environment where
  "broken_env =
     \<lparr> init_succeeds = False,
       compute_embeddings_from_url = (\<lambda>url. Inr None),
       index_search = exact_inner_product_search \<rparr>"

definition fresh_service :: insightface_service where
  "fresh_service = \<lparr> initialized = False, event_indices = Map.empty \<rparr>"

text \<open>
  The scope \<open>event\<close> is what ingesting the URL \<open>two-faces\<close> as item \<open>p\<close> leaves; the scope
  \<open>idle\<close> exists and holds nothing.
\<close>

definition example_service :: insightface_service where
  "example_service =
     \<lparr> initialized = True,
       event_indices =
         [''event'' \<mapsto>
            \<lparr> index = \<lparr> width = 2, rows = [[- 0.6, 0.8], [- 0.8, 0.6]] \<rparr>,
              ids = [''p#0'', ''p#1''],
              vectors = \<lparr> width = 2, rows = [[- 0.6, 0.8], [- 0.8, 0.6]] \<rparr> \<rparr>,
          ''idle'' \<mapsto>
            \<lparr> index = \<lparr> width = 2, rows = [] \<rparr>,
              ids = [],
              vectors = \<lparr> width = 2, rows = [] \<rparr> \<rparr>] \<rparr>"

section \<open>Properties of the comparison and of collection matching\<close>

lemma compare_faces_numeric_returns:
  "tol \<noteq> TolNonNumeric \<Longrightarrow> \<exists>c. compare_faces st d1 d2 tol = Inr c"
  by (cases tol)
    (simp_all add: compare_faces_def compare_faces_try_def compare_faces_except_def
       resolve_tolerance_def Let_def)

lemma match_loop_Inr:
  "match_loop st u tol acc ps = Inr rs \<Longrightarrow>
     rs = acc @ map (match_of st u tol) (filter (passes_gates st u tol) ps)"
proof (induction ps arbitrary: acc)
  case Nil
  then show ?case by simp
next
  case (Cons p ps)
  show ?case
  proof (cases "lacks_descriptor p")
    case True
    with Cons show ?thesis by (simp add: passes_gates_def)
  next
    case False
    show ?thesis
    proof (cases "compare_faces st u (the (descriptor p)) tol")
      case (Inl e)
      with False Cons.prems show ?thesis by simp
    next
      case (Inr c)
      show ?thesis
      proof (cases "is_match c \<and> confidence c \<ge> 0.4")
        case gate: True
        with False Inr Cons.prems obtain i where i: "pd_id p = Some i"
          and loop: "match_loop st u tol (acc @ [make_match i p c]) ps = Inr rs"
          by (auto split: option.splits)
        from Cons.IH[OF loop] gate False Inr i show ?thesis
          by (simp add: passes_gates_def match_of_def)
      next
        case nogate: False
        with False Inr Cons.prems have "match_loop st u tol acc ps = Inr rs" by auto
        from Cons.IH[OF this] nogate False Inr show ?thesis
          by (simp add: passes_gates_def)
      qed
    qed
  qed
qed

lemma match_loop_returns:
  assumes "tol \<noteq> TolNonNumeric" and "\<forall>p\<in>set ps. pd_id p \<noteq> None"
  shows "\<exists>rs. match_loop st u tol acc ps = Inr rs"
  using assms(2)
proof (induction ps arbitrary: acc)
  case Nil
  then show ?case by simp
next
  case (Cons p ps)
  from compare_faces_numeric_returns[OF assms(1)]
  obtain c where c: "compare_faces st u (the (descriptor p)) tol = Inr c" by blast
  from Cons.prems obtain i where i: "pd_id p = Some i" by auto
  from Cons.prems have rest: "\<forall>p\<in>set ps. pd_id p \<noteq> None" by simp
  show ?case using c i Cons.IH[OF rest] by simp
qed



lemma sort_by_score_desc_sorted:
  "sorted_wrt (\<lambda>a b. score a \<ge> score b) (sort_by_score_desc score xs)"
proof -
  have "sorted (map (\<lambda>x. - score x) (sort_key (\<lambda>x. - score x) xs))"
    by (rule sorted_sort_key)
  then show ?thesis
    by (simp add: sort_by_score_desc_def sorted_map)
qed

lemma sort_by_score_desc_mset [simp]: "mset (sort_by_score_desc score xs) = mset xs"
  by (simp add: sort_by_score_desc_def)

lemma sort_by_score_desc_set [simp]: "set (sort_by_score_desc score xs) = set xs"
  by (simp add: sort_by_score_desc_def)


lemma compare_faces_well_formed:
  assumes "length descriptor1 = length descriptor2"
  shows "compare_faces st descriptor1 descriptor2 (TolFloat t) =
           Inr \<lparr> is_match = (linalg_norm (np_sub descriptor1 descriptor2) \<le> t),
                 distance = linalg_norm (np_sub descriptor1 descriptor2),
                 similarity =
                   (if linalg_norm descriptor1 * linalg_norm descriptor2 = 0 then None
                    else Some (np_dot descriptor1 descriptor2
                                 / (linalg_norm descriptor1 * linalg_norm descriptor2))),
                 confidence = max 0 (1 - linalg_norm (np_sub descriptor1 descriptor2) / 1.2),
                 tolerance_used = t \<rparr>"
  using assms
  by (simp add: compare_faces_def compare_faces_try_def resolve_tolerance_def Let_def)

lemma compare_faces_malformed:
  assumes "length descriptor1 \<noteq> length descriptor2"
  shows "compare_faces st descriptor1 descriptor2 (TolFloat t) =
           Inr \<lparr> is_match = False, distance = 999, similarity = Some 0, confidence = 0,
                 tolerance_used = (if t = 0 then st else t) \<rparr>"
  using assms by (simp add: compare_faces_def compare_faces_try_def compare_faces_except_def)

lemma compare_faces_match:
  assumes "compare_faces st d1 d2 tol = Inr c" and "is_match c"
  shows "distance c \<le> tolerance_used c \<and> resolve_tolerance st tol = TolFloat (tolerance_used c)
         \<and> length d1 = length d2"
proof (cases "length d1 = length d2")
  case True
  with assms show ?thesis
    by (cases tol)
      (auto simp: compare_faces_def compare_faces_try_def compare_faces_except_def
         resolve_tolerance_def Let_def)
next
  case False
  with assms show ?thesis
    by (cases tol)
      (auto simp: compare_faces_def compare_faces_try_def compare_faces_except_def
         resolve_tolerance_def Let_def)
qed

lemma passes_gates_bounds:
  assumes "passes_gates st u tol p"
  shows "mp_distance (match_of st u tol p) \<le> mp_tolerance_used (match_of st u tol p)
         \<and> mp_score (match_of st u tol p) \<ge> 0.4"
proof -
  from assms obtain c where c: "compare_faces st u (the (descriptor p)) tol = Inr c"
    and m: "is_match c" and conf: "confidence c \<ge> 0.4"
    by (auto simp: passes_gates_def split: sum.splits)
  from compare_faces_match[OF c m] conf c show ?thesis
    by (simp add: match_of_def make_match_def)
qed

text \<open>
  Claim C1. Whenever \<open>find_matching_photos\<close> returns a list, that list is a rearrangement
  of the entries of exactly those photos that carry a descriptor and pass both gates
  (\<open>is_match\<close> and confidence at least 0.4); every returned entry has its distance within
  the tolerance used and a score of at least 0.4; and the list is in descending order of
  score. The call does return for an initialised service, a tolerance that is a number or
  \<open>None\<close>, and photos that each have an \<open>'id'\<close>.
\<close>

theorem find_matching_photos_gates_and_order:
  "(ini \<and> tolerance \<noteq> TolNonNumeric \<and> (\<forall>p\<in>set photos. pd_id p \<noteq> None)
      \<longrightarrow> (\<exists>rs. find_matching_photos ini st u photos tolerance = Inr rs))
   \<and> (\<forall>rs. find_matching_photos ini st u photos tolerance = Inr rs \<longrightarrow>
         mset rs = mset (map (match_of st u (resolve_tolerance st tolerance))
                       (filter (passes_gates st u (resolve_tolerance st tolerance)) photos))
         \<and> (\<forall>r\<in>set rs. mp_distance r \<le> mp_tolerance_used r \<and> mp_score r \<ge> 0.4)
         \<and> sorted_wrt (\<lambda>a b. mp_score a \<ge> mp_score b) rs)"
proof (intro conjI impI allI)
  assume a: "ini \<and> tolerance \<noteq> TolNonNumeric \<and> (\<forall>p\<in>set photos. pd_id p \<noteq> None)"
  then have "resolve_tolerance st tolerance \<noteq> TolNonNumeric"
    by (cases tolerance) (simp_all add: resolve_tolerance_def)
  from match_loop_returns[OF this, of photos st u "[]"] a
  show "\<exists>rs. find_matching_photos ini st u photos tolerance = Inr rs"
    by (auto simp: find_matching_photos_def)
next
  fix rs
  assume r: "find_matching_photos ini st u photos tolerance = Inr rs"
  let ?tol = "resolve_tolerance st tolerance"
  let ?ms = "map (match_of st u ?tol) (filter (passes_gates st u ?tol) photos)"
  from r obtain ms where loop: "match_loop st u ?tol [] photos = Inr ms"
    and rs: "rs = sort_by_score_desc mp_score ms"
    by (auto simp: find_matching_photos_def split: if_splits sum.splits)
  from match_loop_Inr[OF loop] have ms: "ms = ?ms" by simp
  show "mset rs = mset ?ms" using rs ms by simp
  show "\<forall>r\<in>set rs. mp_distance r \<le> mp_tolerance_used r \<and> mp_score r \<ge> 0.4"
    using rs ms passes_gates_bounds by auto
  show "sorted_wrt (\<lambda>a b. mp_score a \<ge> mp_score b) rs"
    using rs by (simp add: sort_by_score_desc_sorted)
qed



text \<open>
  Claim C3. The claim that \<open>compare_faces\<close> never raises fails for a tolerance such as the
  string \<open>"abc"\<close>: the \<open>try\<close> block raises at the comparison with the distance, and the
  handler, which was to return the worst-case result, raises itself at
  \<open>float(tolerance or self.tolerance)\<close>. With a tolerance that is a number or \<open>None\<close> the
  function does return, as \<open>compare_faces_well_formed\<close> and \<open>compare_faces_malformed\<close> say.
\<close>

theorem compare_faces_raises_on_non_numeric_tolerance:
  "compare_faces st d1 d2 TolNonNumeric = Inl ValueError"
  by (simp add: compare_faces_def compare_faces_try_def compare_faces_except_def
        resolve_tolerance_def Let_def)

lemma linalg_norm_axis: "linalg_norm (np_sub [0, 0] [0, x]) = \<bar>x\<bar>"
  by (simp add: linalg_norm_def np_sub_def)

lemma linalg_norm_3_4: "linalg_norm (np_sub [0, 0] [3, 4]) = 5"
  by (simp add: linalg_norm_def np_sub_def)

lemma linalg_norm_origin: "linalg_norm [0, 0] = 0"
  by (simp add: linalg_norm_def np_sub_def)

lemma find_matching_photos_example:
  "find_matching_photos True 0.6 [0, 0] example_collection (TolFloat 1) =
     Inr [example_match ''same'' 1 0 1, example_match ''near'' 0.5 0.6 1]"
  by (simp add: find_matching_photos_def example_collection_def photo_with_def
        resolve_tolerance_def lacks_descriptor_def compare_faces_well_formed
        compare_faces_malformed linalg_norm_axis linalg_norm_3_4 linalg_norm_origin make_match_def dict_get_def
        sort_by_score_desc_def example_match_def)


lemma example_collection_ids: "\<forall>p\<in>set example_collection. pd_id p \<noteq> None"
  by (simp add: example_collection_def photo_with_def)

theorem find_matching_photos_gates_and_order_witness:
  "list_all (\<lambda>p. pd_id p \<noteq> None) example_collection
   \<and> find_matching_photos True 0.6 [0, 0] example_collection (TolFloat 1) =
       Inr [example_match ''same'' 1 0 1, example_match ''near'' 0.5 0.6 1]
   \<and> mset [example_match ''same'' 1 0 1, example_match ''near'' 0.5 0.6 1] =
       mset (map (match_of 0.6 [0, 0] (TolFloat 1))
              (filter (passes_gates 0.6 [0, 0] (TolFloat 1)) example_collection))
   \<and> list_all (\<lambda>r. mp_distance r \<le> mp_tolerance_used r \<and> mp_score r \<ge> 0.4)
        [example_match ''same'' 1 0 1, example_match ''near'' 0.5 0.6 1]
   \<and> sorted_wrt (\<lambda>a b. mp_score a \<ge> mp_score b)
        [example_match ''same'' 1 0 1, example_match ''near'' 0.5 0.6 1]"
proof -
  have r: "resolve_tolerance 0.6 (TolFloat 1) = TolFloat 1"
    by (simp add: resolve_tolerance_def)
  from find_matching_photos_gates_and_order
         [where ini = True and st = "0.6" and u = "[0, 0]" and photos = example_collection
            and tolerance = "TolFloat 1"]
  show ?thesis
    unfolding r list_all_iff
    using find_matching_photos_example example_collection_ids by blast
qed




section \<open>Properties of duplicate suppression\<close>

lemma overlaps_beyond_threshold_sym:
  "overlaps_beyond_threshold a b = overlaps_beyond_threshold b a"
proof -
  have "overlap_area a b = overlap_area b a"
    by (cases a; cases b) (simp add: overlap_area_def min.commute max.commute)
  then show ?thesis
    by (simp add: overlaps_beyond_threshold_def min.commute)
qed

lemma overlaps_beyond_threshold_int:
  "overlaps_beyond_threshold a b \<longleftrightarrow> 10 * overlap_area a b > 3 * min (box_area a) (box_area b)"
proof -
  have "overlaps_beyond_threshold a b \<longleftrightarrow>
          real_of_int (3 * min (box_area a) (box_area b)) < real_of_int (10 * overlap_area a b)"
    by (simp add: overlaps_beyond_threshold_def mult.commute)
  then show ?thesis
    unfolding of_int_less_iff .
qed

lemma unique_faces_loop_append:
  "unique_faces_loop acc (xs @ ys) = unique_faces_loop (unique_faces_loop acc xs) ys"
  by (induction xs arbitrary: acc) simp_all

lemma unique_faces_loop_subseq:
  "\<exists>ys. unique_faces_loop acc fs = acc @ ys \<and> subseq ys fs"
proof (induction fs arbitrary: acc)
  case Nil
  then show ?case by simp
next
  case (Cons f fs)
  show ?case
  proof (cases "list_ex (overlaps_beyond_threshold f) acc")
    case True
    from Cons.IH[of acc] obtain ys where "unique_faces_loop acc fs = acc @ ys" "subseq ys fs"
      by blast
    with True show ?thesis by (auto intro: subseq_Cons')  
  next
    case False
    from Cons.IH[of "acc @ [f]"] obtain ys
      where "unique_faces_loop (acc @ [f]) fs = (acc @ [f]) @ ys" "subseq ys fs"
      by blast
    with False have "unique_faces_loop acc (f # fs) = acc @ (f # ys) \<and> subseq (f # ys) (f # fs)"
      by simp
    then show ?thesis by blast
  qed
qed

lemma unique_faces_loop_prefix: "prefix acc (unique_faces_loop acc fs)"
  using unique_faces_loop_subseq[of acc fs] by auto

lemma unique_faces_loop_no_overlap:
  "sorted_wrt (\<lambda>e f. \<not> overlaps_beyond_threshold f e) acc \<Longrightarrow>
   sorted_wrt (\<lambda>e f. \<not> overlaps_beyond_threshold f e) (unique_faces_loop acc fs)"
proof (induction fs arbitrary: acc)
  case Nil
  then show ?case by simp
next
  case (Cons f fs)
  show ?case
  proof (cases "list_ex (overlaps_beyond_threshold f) acc")
    case True
    with Cons show ?thesis by simp
  next
    case False
    with Cons.prems have "sorted_wrt (\<lambda>e f. \<not> overlaps_beyond_threshold f e) (acc @ [f])"
      by (simp add: sorted_wrt_append list_ex_iff)
    from Cons.IH[OF this] False show ?thesis by simp
  qed
qed

lemma unique_faces_loop_covers:
  "\<forall>f\<in>set fs. f \<in> set (unique_faces_loop acc fs)
       \<or> (\<exists>e\<in>set (unique_faces_loop acc fs). overlaps_beyond_threshold f e)"
proof (induction fs arbitrary: acc)
  case Nil
  then show ?case by simp
next
  case (Cons f fs)
  let ?acc' = "if list_ex (overlaps_beyond_threshold f) acc then acc else acc @ [f]"
  have step: "unique_faces_loop acc (f # fs) = unique_faces_loop ?acc' fs" by simp
  from unique_faces_loop_prefix[of ?acc' fs]
  have sub: "set ?acc' \<subseteq> set (unique_faces_loop ?acc' fs)"
    by (rule set_mono_prefix)
  have "f \<in> set ?acc' \<or> (\<exists>e\<in>set ?acc'. overlaps_beyond_threshold f e)"
    by (auto simp: list_ex_iff)
  with sub have "f \<in> set (unique_faces_loop ?acc' fs)
       \<or> (\<exists>e\<in>set (unique_faces_loop ?acc' fs). overlaps_beyond_threshold f e)"
    by blast
  with Cons.IH[of ?acc'] show ?case unfolding step by simp
qed

lemma remove_duplicate_faces_loop:
  "remove_duplicate_faces face_locations = unique_faces_loop [] face_locations"
proof (cases face_locations)
  case Nil
  then show ?thesis by (simp add: remove_duplicate_faces_def)
next
  case (Cons f fs)
  then show ?thesis by (cases fs) (simp_all add: remove_duplicate_faces_def)
qed

text \<open>
  Claim C6. Two boxes count as duplicates when their intersection area exceeds 0.3 times
  the smaller of the two areas. The result of \<open>_remove_duplicate_faces\<close> keeps boxes in
  their input order; no kept box overlaps an earlier kept box beyond the threshold; every
  input box is kept or is a duplicate of a kept box; a box is kept exactly when it is not a
  duplicate of a box kept before it, so the first-seen box of a cluster stays whatever its
  size; and what was kept of a prefix of the input stays kept.
\<close>

theorem remove_duplicate_faces_first_seen:
  "subseq (remove_duplicate_faces fl) fl
   \<and> sorted_wrt (\<lambda>e f. \<not> overlaps_beyond_threshold f e) (remove_duplicate_faces fl)
   \<and> (\<forall>f\<in>set fl. f \<in> set (remove_duplicate_faces fl)
          \<or> (\<exists>e\<in>set (remove_duplicate_faces fl). overlaps_beyond_threshold f e))
   \<and> (\<forall>f e. overlaps_beyond_threshold f e \<longleftrightarrow>
          real_of_int (overlap_area f e) > 0.3 * real_of_int (min (box_area f) (box_area e)))
   \<and> (\<forall>pre f. remove_duplicate_faces (pre @ [f]) =
          (if \<exists>e\<in>set (remove_duplicate_faces pre). overlaps_beyond_threshold f e
           then remove_duplicate_faces pre else remove_duplicate_faces pre @ [f]))
   \<and> (\<forall>pre post. fl = pre @ post \<longrightarrow>
          prefix (remove_duplicate_faces pre) (remove_duplicate_faces fl))"
proof (intro conjI allI impI)
  show "subseq (remove_duplicate_faces fl) fl"
    using unique_faces_loop_subseq[of "[]" fl] by (auto simp: remove_duplicate_faces_loop)
  show "sorted_wrt (\<lambda>e f. \<not> overlaps_beyond_threshold f e) (remove_duplicate_faces fl)"
    using unique_faces_loop_no_overlap[of "[]" fl] by (simp add: remove_duplicate_faces_loop)
  show "\<forall>f\<in>set fl. f \<in> set (remove_duplicate_faces fl)
          \<or> (\<exists>e\<in>set (remove_duplicate_faces fl). overlaps_beyond_threshold f e)"
    using unique_faces_loop_covers[of fl "[]"] by (simp add: remove_duplicate_faces_loop)
next
  fix f e
  show "overlaps_beyond_threshold f e \<longleftrightarrow>
          real_of_int (overlap_area f e) > 0.3 * real_of_int (min (box_area f) (box_area e))"
    by (simp add: overlaps_beyond_threshold_def)
next
  fix pre f
  show "remove_duplicate_faces (pre @ [f]) =
          (if \<exists>e\<in>set (remove_duplicate_faces pre). overlaps_beyond_threshold f e
           then remove_duplicate_faces pre else remove_duplicate_faces pre @ [f])"
    by (simp add: remove_duplicate_faces_loop unique_faces_loop_append list_ex_iff)
next
  fix pre post
  assume "fl = pre @ post"
  then show "prefix (remove_duplicate_faces pre) (remove_duplicate_faces fl)"
    by (simp add: remove_duplicate_faces_loop unique_faces_loop_append unique_faces_loop_prefix)
qed

lemma remove_duplicate_faces_example:
  "remove_duplicate_faces [(0, 10, 10, 0), (0, 100, 100, 0), (200, 300, 300, 200), (5, 15, 15, 5)]
     = [(0, 10, 10, 0), (200, 300, 300, 200), (5, 15, 15, 5)]"
  by (simp add: remove_duplicate_faces_def overlaps_beyond_threshold_int overlap_area_def
        box_area_def)

theorem remove_duplicate_faces_first_seen_witness:
  "remove_duplicate_faces [(0, 10, 10, 0), (0, 100, 100, 0), (200, 300, 300, 200), (5, 15, 15, 5)]
     = [(0, 10, 10, 0), (200, 300, 300, 200), (5, 15, 15, 5)]
   \<and> box_area (0, 10, 10, 0) < box_area (0, 100, 100, 0)
   \<and> overlaps_beyond_threshold (0, 100, 100, 0) (0, 10, 10, 0)
   \<and> subseq [(0, 10, 10, 0), (200, 300, 300, 200), (5, 15, 15, 5)]
        [(0, 10, 10, 0), (0, 100, 100, 0), (200, 300, 300, 200), (5, 15, 15, 5)]
   \<and> sorted_wrt (\<lambda>e f. \<not> overlaps_beyond_threshold f e)
        [(0, 10, 10, 0), (200, 300, 300, 200), (5, 15, 15, 5)]
   \<and> prefix (remove_duplicate_faces [(0, 10, 10, 0), (0, 100, 100, 0)])
        [(0, 10, 10, 0), (200, 300, 300, 200), (5, 15, 15, 5)]"
proof -
  let ?fl = "[(0, 10, 10, 0), (0, 100, 100, 0), (200, 300, 300, 200), (5, 15, 15, 5)]
               :: face_location list"
  have split: "?fl = [(0, 10, 10, 0), (0, 100, 100, 0)] @ [(200, 300, 300, 200), (5, 15, 15, 5)]"
    by simp
  have area: "box_area (0, 10, 10, 0) < box_area (0, 100, 100, 0)"
    by (simp add: box_area_def)
  have dup: "overlaps_beyond_threshold (0, 100, 100, 0) (0, 10, 10, 0)"
    by (simp add: overlaps_beyond_threshold_int overlap_area_def box_area_def)
  from remove_duplicate_faces_first_seen[of ?fl]
  show ?thesis
    unfolding remove_duplicate_faces_example using area dup split by blast
qed

section \<open>Properties of the descriptor cache\<close>

lemma cache_inv_init: "cache_inv (lru_cache_init cap t)"
  by (simp add: cache_inv_def lru_cache_init_def)

lemma cache_inv_delete: "cache_inv c \<Longrightarrow> cache_inv (cache_delete key c)"
  by (auto simp: cache_inv_def cache_delete_def)

lemma cache_inv_get: "cache_inv c \<Longrightarrow> cache_inv (snd (cache_get now key c))"
  by (auto simp: cache_inv_def cache_get_def cache_delete_def split: option.splits)

lemma cache_inv_set:
  assumes "cache_inv c" and "cache_set now key v c = Inr c'"
  shows "cache_inv c'"
proof (cases "store c key")
  case (Some a)
  with assms show ?thesis
    by (auto simp: cache_inv_def cache_set_def split: if_splits)
next
  case None
  with assms(1) have notin: "key \<notin> set (order c)" by (auto simp: cache_inv_def)
  show ?thesis
  proof (cases "int (length (order c)) \<ge> capacity c")
    case False
    with None assms notin show ?thesis
      by (auto simp: cache_inv_def cache_set_def split: if_splits)
  next
    case True
    with None assms(2) obtain lru rest where o: "order c = lru # rest"
      and c': "c' = c\<lparr> store := ((store c)(lru := None))(key \<mapsto> (now, v)),
                       order := rest @ [key] \<rparr>"
      by (auto simp: cache_set_def split: list.splits)
    from assms(1) o notin show ?thesis
      unfolding c' by (auto simp: cache_inv_def)
  qed
qed

lemma cache_set_returns:
  assumes "cache_inv c" and "0 < capacity c"
  shows "\<exists>c'. cache_set now key v c = Inr c'"
proof (cases "store c key")
  case (Some a)
  with assms(1) have "key \<in> set (order c)" by (auto simp: cache_inv_def)
  with Some show ?thesis by (simp add: cache_set_def)
next
  case None
  then show ?thesis using assms(2)
    by (cases "order c") (auto simp: cache_set_def)
qed

text \<open>
  Claim C4, as amended. For a cache whose \<open>order\<close> lists exactly the stored keys, once
  each: \<open>get\<close> on an entry older than the TTL returns \<open>None\<close> and removes the key from
  \<open>store\<close> and \<open>order\<close>; \<open>get\<close> on a live entry returns its value and moves the key to
  the end of \<open>order\<close>, the most recently used position; and, when the capacity is at least
  1, \<open>set\<close> of a key that is not stored, on a cache whose \<open>order\<close> has reached the
  capacity, removes the head of \<open>order\<close> (the least recently used key) from \<open>store\<close> and
  \<open>order\<close> and then inserts the new entry at the end. \<open>set\<close> of a key that is stored
  replaces its entry and moves the key to the end of \<open>order\<close>; it evicts nothing.
\<close>

theorem lru_cache_contract:
  assumes "cache_inv c"
  shows "(\<forall>ts v. store c key = Some (ts, v) \<and> now - ts > real_of_int (ttl c) \<longrightarrow>
            fst (cache_get now key c) = None
            \<and> store (snd (cache_get now key c)) = (store c)(key := None)
            \<and> order (snd (cache_get now key c)) = remove1 key (order c)
            \<and> key \<notin> set (order (snd (cache_get now key c))))
       \<and> (\<forall>ts v. store c key = Some (ts, v) \<and> now - ts \<le> real_of_int (ttl c) \<longrightarrow>
            fst (cache_get now key c) = Some v
            \<and> store (snd (cache_get now key c)) = store c
            \<and> order (snd (cache_get now key c)) = remove1 key (order c) @ [key])
       \<and> (\<forall>v. store c key = None \<and> int (length (order c)) \<ge> capacity c \<and> 0 < capacity c \<longrightarrow>
            (\<exists>lru rest. order c = lru # rest
               \<and> cache_set now key v c =
                   Inr (c\<lparr> store := ((store c)(lru := None))(key \<mapsto> (now, v)),
                            order := rest @ [key] \<rparr>)
               \<and> lru \<noteq> key \<and> lru \<notin> set (rest @ [key])))
       \<and> (\<forall>old v. store c key = Some old \<longrightarrow>
            cache_set now key v c =
              Inr (c\<lparr> store := (store c)(key \<mapsto> (now, v)),
                       order := remove1 key (order c) @ [key] \<rparr>))"
proof (intro conjI allI impI)
  fix ts v
  assume a: "store c key = Some (ts, v) \<and> now - ts > real_of_int (ttl c)"
  then have g: "cache_get now key c = (None, cache_delete key c)"
    by (simp add: cache_get_def)
  show "fst (cache_get now key c) = None" by (simp add: g)
  show "store (snd (cache_get now key c)) = (store c)(key := None)"
    by (simp add: g cache_delete_def)
  show "order (snd (cache_get now key c)) = remove1 key (order c)"
    by (simp add: g cache_delete_def)
  from assms show "key \<notin> set (order (snd (cache_get now key c)))"
    by (simp add: g cache_delete_def cache_inv_def)
next
  fix ts v
  assume a: "store c key = Some (ts, v) \<and> now - ts \<le> real_of_int (ttl c)"
  then have g: "cache_get now key c = (Some v, c\<lparr> order := remove1 key (order c) @ [key] \<rparr>)"
    by (simp add: cache_get_def)
  show "fst (cache_get now key c) = Some v" by (simp add: g)
  show "store (snd (cache_get now key c)) = store c" by (simp add: g)
  show "order (snd (cache_get now key c)) = remove1 key (order c) @ [key]" by (simp add: g)
next
  fix v
  assume a: "store c key = None \<and> int (length (order c)) \<ge> capacity c \<and> 0 < capacity c"
  then obtain lru rest where o: "order c = lru # rest"
    by (cases "order c") auto
  from assms a have notin: "key \<notin> set (order c)" by (auto simp: cache_inv_def)
  from assms o have d: "lru \<notin> set rest" by (simp add: cache_inv_def)
  from a o have "cache_set now key v c =
      Inr (c\<lparr> store := ((store c)(lru := None))(key \<mapsto> (now, v)), order := rest @ [key] \<rparr>)"
    by (simp add: cache_set_def)
  with o notin d
  show "\<exists>lru rest. order c = lru # rest
               \<and> cache_set now key v c =
                   Inr (c\<lparr> store := ((store c)(lru := None))(key \<mapsto> (now, v)),
                            order := rest @ [key] \<rparr>)
               \<and> lru \<noteq> key \<and> lru \<notin> set (rest @ [key])"
    by auto
next
  fix old v
  assume a: "store c key = Some old"
  with assms have "key \<in> set (order c)" by (auto simp: cache_inv_def)
  with a show "cache_set now key v c =
              Inr (c\<lparr> store := (store c)(key \<mapsto> (now, v)),
                       order := remove1 key (order c) @ [key] \<rparr>)"
    by (simp add: cache_set_def)
qed

text \<open>
  Claim C4 as stated, for every capacity, fails at capacity 0: the empty \<open>order\<close> list has
  reached the capacity, and \<open>set\<close> raises \<open>IndexError\<close> at \<open>self.order.pop(0)\<close> instead of
  evicting and inserting. And on a full cache of capacity 2, \<open>set\<close> of the stored key \<open>b\<close>
  leaves the least recently used key \<open>a\<close> in place.
\<close>

theorem cache_set_capacity_zero_counterexample:
  "int (length (order (lru_cache_init 0 3600 :: nat lru_cache)))
      \<ge> capacity (lru_cache_init 0 3600 :: nat lru_cache)
   \<and> cache_set 0 ''a'' (1 :: nat) (lru_cache_init 0 3600) = Inl IndexError
   \<and> (\<nexists>c'. cache_set 0 ''a'' (1 :: nat) (lru_cache_init 0 3600) = Inr c')
   \<and> int (length (order example_cache)) \<ge> capacity example_cache
   \<and> hd (order example_cache) = ''a''
   \<and> (\<exists>c'. cache_set 5 ''b'' 7 example_cache = Inr c'
          \<and> order c' = [''a'', ''b''] \<and> store c' ''a'' = Some (0, 1))"
  by (simp add: cache_set_def lru_cache_init_def example_cache_def)

lemma example_cache_built:
  "cache_set 0 ''a'' (1 :: nat) (lru_cache_init 2 10)
     = Inr \<lparr> capacity = 2, ttl = 10, store = [''a'' \<mapsto> (0, 1)], order = [''a''] \<rparr>
   \<and> cache_set 1 ''b'' 2
       \<lparr> capacity = 2, ttl = 10, store = [''a'' \<mapsto> (0, 1 :: nat)], order = [''a''] \<rparr>
     = Inr example_cache"
  by (simp add: cache_set_def lru_cache_init_def example_cache_def)

lemma example_cache_inv: "cache_inv example_cache"
  by (auto simp: cache_inv_def example_cache_def)

theorem lru_cache_contract_witness:
  "cache_inv example_cache
   \<and> fst (cache_get 20 ''b'' example_cache) = None
   \<and> store (snd (cache_get 20 ''b'' example_cache)) ''b'' = None
   \<and> order (snd (cache_get 20 ''b'' example_cache)) = [''a'']
   \<and> fst (cache_get 2 ''a'' example_cache) = Some 1
   \<and> order (snd (cache_get 2 ''a'' example_cache)) = [''b'', ''a'']
   \<and> (\<exists>c'. cache_set 3 ''c'' 3 (snd (cache_get 2 ''a'' example_cache)) = Inr c'
          \<and> order c' = [''a'', ''c''] \<and> store c' ''b'' = None
          \<and> store c' ''a'' = Some (0, 1) \<and> store c' ''c'' = Some (3, 3))"
proof -
  have inv: "cache_inv example_cache" by (rule example_cache_inv)
  have b: "store example_cache ''b'' = Some (1, 2) \<and> 20 - 1 > real_of_int (ttl example_cache)"
    by (simp add: example_cache_def)
  have a: "store example_cache ''a'' = Some (0, 1) \<and> 2 - 0 \<le> real_of_int (ttl example_cache)"
    by (simp add: example_cache_def)
  let ?c = "snd (cache_get 2 ''a'' example_cache)"
  have inv': "cache_inv ?c" by (rule cache_inv_get[OF inv])
  have c: "store ?c ''c'' = None \<and> int (length (order ?c)) \<ge> capacity ?c \<and> 0 < capacity ?c"
    by (simp add: example_cache_def cache_get_def)
  from lru_cache_contract[OF inv, of "''b''" 20] b
  have 1: "fst (cache_get 20 ''b'' example_cache) = None
     \<and> store (snd (cache_get 20 ''b'' example_cache)) ''b'' = None
     \<and> order (snd (cache_get 20 ''b'' example_cache)) = [''a'']"
    by (simp add: example_cache_def)
  from lru_cache_contract[OF inv, of "''a''" 2] a
  have 2: "fst (cache_get 2 ''a'' example_cache) = Some 1
     \<and> order ?c = [''b'', ''a'']"
    by (simp add: example_cache_def)
  from lru_cache_contract[OF inv', of "''c''" 3] c
  have 3: "\<exists>c'. cache_set 3 ''c'' 3 ?c = Inr c'
          \<and> order c' = [''a'', ''c''] \<and> store c' ''b'' = None
          \<and> store c' ''a'' = Some (0, 1) \<and> store c' ''c'' = Some (3, 3)"
    by (simp add: example_cache_def cache_get_def cache_set_def)
  from inv 1 2 3 show ?thesis by blast
qed

section \<open>Properties of batch analysis\<close>

lemma batch_step_counts:
  "processed (batch_step r (process_url g u)) = processed r + 1
   \<and> faces_found (batch_step r (process_url g u)) = faces_found r + (if has_faces g u then 1 else 0)
   \<and> failed (batch_step r (process_url g u)) = failed r + (if raised g u then 1 else 0)"
  by (cases "g u")
    (auto simp: batch_step_def process_url_def has_faces_def raised_def Let_def
       split: option.splits)

lemma batch_fold_counts:
  "processed (foldl batch_step r (map (process_url g) urls)) = processed r + length urls
   \<and> faces_found (foldl batch_step r (map (process_url g) urls))
       = faces_found r + length (filter (has_faces g) urls)
   \<and> failed (foldl batch_step r (map (process_url g) urls))
       = failed r + length (filter (raised g) urls)"
proof (induction urls arbitrary: r)
  case Nil
  then show ?case by simp
next
  case (Cons u urls)
  show ?case
    using Cons.IH[of "batch_step r (process_url g u)"] batch_step_counts[of r g u]
    by simp
qed

lemma outcome_partition:
  "length urls = length (filter (has_faces g) urls) + length (filter (raised g) urls)
                 + length (filter (soft_empty g) urls)"
proof (induction urls)
  case Nil
  then show ?case by simp
next
  case (Cons u urls)
  have "(has_faces g u \<and> \<not> raised g u \<and> \<not> soft_empty g u)
      \<or> (\<not> has_faces g u \<and> raised g u \<and> \<not> soft_empty g u)
      \<or> (\<not> has_faces g u \<and> \<not> raised g u \<and> soft_empty g u)"
    by (cases "g u") (auto simp: has_faces_def raised_def soft_empty_def split: option.splits)
  with Cons show ?case by auto
qed

text \<open>
  Claim C9. \<open>batch_analyze_photos\<close> counts every URL in \<open>processed\<close>, the URLs that gave a
  non-empty descriptor list in \<open>faces_found\<close>, and only the URLs whose processing raised in
  \<open>failed\<close>. A URL that returned \<open>None\<close> or an empty list is in neither, so as soon as
  there is one, \<open>processed\<close> exceeds \<open>faces_found + failed\<close>.
\<close>

theorem batch_analyze_photos_counts:
  "processed (batch_analyze_photos g urls) = length urls
   \<and> faces_found (batch_analyze_photos g urls) = length (filter (has_faces g) urls)
   \<and> failed (batch_analyze_photos g urls) = length (filter (raised g) urls)
   \<and> processed (batch_analyze_photos g urls)
       = faces_found (batch_analyze_photos g urls) + failed (batch_analyze_photos g urls)
         + length (filter (soft_empty g) urls)
   \<and> (list_ex (soft_empty g) urls \<longrightarrow>
        processed (batch_analyze_photos g urls)
          > faces_found (batch_analyze_photos g urls) + failed (batch_analyze_photos g urls))"
proof -
  let ?r = "batch_analyze_photos g urls"
  from batch_fold_counts[of "\<lparr> processed = 0, faces_found = 0, failed = 0, photo_data = [] \<rparr>" g urls]
  have p: "processed ?r = length urls"
    and f: "faces_found ?r = length (filter (has_faces g) urls)"
    and x: "failed ?r = length (filter (raised g) urls)"
    by (simp_all add: batch_analyze_photos_def)
  have part: "processed ?r = faces_found ?r + failed ?r + length (filter (soft_empty g) urls)"
    using outcome_partition[of urls g] p f x by simp
  have pos: "list_ex (soft_empty g) urls \<Longrightarrow> 0 < length (filter (soft_empty g) urls)"
    by (auto simp: list_ex_iff filter_empty_conv)
  have "list_ex (soft_empty g) urls \<longrightarrow> processed ?r > faces_found ?r + failed ?r"
  proof
    assume "list_ex (soft_empty g) urls"
    from pos[OF this] part show "processed ?r > faces_found ?r + failed ?r" by linarith
  qed
  with p f x part show ?thesis by blast
qed

theorem batch_analyze_photos_counts_witness:
  "list_ex (soft_empty example_fetch) [''face'', ''boom'', ''empty'', ''gone'']
   \<and> processed (batch_analyze_photos example_fetch [''face'', ''boom'', ''empty'', ''gone'']) = 4
   \<and> faces_found (batch_analyze_photos example_fetch [''face'', ''boom'', ''empty'', ''gone'']) = 1
   \<and> failed (batch_analyze_photos example_fetch [''face'', ''boom'', ''empty'', ''gone'']) = 1
   \<and> processed (batch_analyze_photos example_fetch [''face'', ''boom'', ''empty'', ''gone''])
       > faces_found (batch_analyze_photos example_fetch [''face'', ''boom'', ''empty'', ''gone''])
         + failed (batch_analyze_photos example_fetch [''face'', ''boom'', ''empty'', ''gone''])"
proof -
  have s: "list_ex (soft_empty example_fetch) [''face'', ''boom'', ''empty'', ''gone'']"
    by (simp add: soft_empty_def example_fetch_def)
  have h: "length (filter (has_faces example_fetch) [''face'', ''boom'', ''empty'', ''gone'']) = 1"
    by (simp add: has_faces_def example_fetch_def)
  have r: "length (filter (raised example_fetch) [''face'', ''boom'', ''empty'', ''gone'']) = 1"
    by (simp add: raised_def example_fetch_def)
  from batch_analyze_photos_counts[of example_fetch "[''face'', ''boom'', ''empty'', ''gone'']"]
  show ?thesis using s h r by simp
qed

section \<open>Properties of grouping\<close>

lemma grouped_get_update:
  "grouped_get (AList.update b v acc) k d = (if k = b then v else grouped_get acc k d)"
  by (simp add: grouped_get_def update_conv')

lemma group_loop_map_of:
  "map_of (group_loop acc rs) k =
     (if \<exists>r\<in>set rs. base_id (sr_id r) = k
      then Some (Max (insert (grouped_get acc k 0)
                        (sr_score ` {r \<in> set rs. base_id (sr_id r) = k})))
      else map_of acc k)"
proof (induction rs arbitrary: acc)
  case Nil
  then show ?case by simp
next
  case (Cons r rs)
  let ?b = "base_id (sr_id r)"
  let ?acc' = "AList.update ?b (max (grouped_get acc ?b 0) (sr_score r)) acc"
  let ?S = "sr_score ` {x \<in> set rs. base_id (sr_id x) = k}"
  have fin: "finite ?S" by simp
  have step: "group_loop acc (r # rs) = group_loop ?acc' rs" by simp
  show ?case
  proof (cases "k = ?b")
    case False
    then have eq: "{x \<in> set (r # rs). base_id (sr_id x) = k} = {x \<in> set rs. base_id (sr_id x) = k}"
      by auto
    from False have ex: "(\<exists>x\<in>set (r # rs). base_id (sr_id x) = k) = (\<exists>x\<in>set rs. base_id (sr_id x) = k)"
      by auto
    from False show ?thesis
      unfolding step Cons.IH[of ?acc'] eq ex
      by (simp add: grouped_get_update update_conv')
  next
    case True
    have eq: "sr_score ` {x \<in> set (r # rs). base_id (sr_id x) = k} = insert (sr_score r) ?S"
      using True by auto
    have ex: "\<exists>x\<in>set (r # rs). base_id (sr_id x) = k" using True by simp
    have g: "grouped_get ?acc' k 0 = max (grouped_get acc k 0) (sr_score r)"
      using True by (simp add: grouped_get_update)
    show ?thesis
    proof (cases "\<exists>x\<in>set rs. base_id (sr_id x) = k")
      case rest: True
      then have ne: "?S \<noteq> {}" by auto
      have "Max (insert (max (grouped_get acc k 0) (sr_score r)) ?S)
            = Max (insert (grouped_get acc k 0) (insert (sr_score r) ?S))"
        using fin ne by (simp add: max.assoc)
      with rest ex show ?thesis
        unfolding step Cons.IH[of ?acc'] eq g by simp
    next
      case norest: False
      then have S: "?S = {}" by auto
      from norest have "map_of (group_loop ?acc' rs) k = map_of ?acc' k"
        unfolding Cons.IH[of ?acc'] by simp
      also have "\<dots> = Some (max (grouped_get acc k 0) (sr_score r))"
        using True by (simp add: update_conv')
      also have "max (grouped_get acc k 0) (sr_score r)
                 = Max (insert (grouped_get acc k 0) (insert (sr_score r) ?S))"
        unfolding S by simp
      finally show ?thesis
        unfolding step eq using ex by simp
    qed
  qed
qed

lemma group_loop_distinct:
  "distinct (map fst acc) \<Longrightarrow> distinct (map fst (group_loop acc rs))"
  by (induction rs arbitrary: acc) (simp_all add: distinct_update)

lemma group_loop_keys:
  "fst ` set (group_loop acc rs) = fst ` set acc \<union> (\<lambda>r. base_id (sr_id r)) ` set rs"
  by (induction rs arbitrary: acc) (auto simp: dom_update)

lemma group_and_sort_members:
  "r \<in> set (group_and_sort results) \<longleftrightarrow>
     (\<exists>x\<in>set results. base_id (sr_id x) = sr_id r)
     \<and> sr_score r = Max (insert 0 (sr_score ` {x \<in> set results. base_id (sr_id x) = sr_id r}))"
proof -
  have d: "distinct (map fst (group_loop [] results))"
    by (rule group_loop_distinct) simp
  have "r \<in> set (group_and_sort results) \<longleftrightarrow> (sr_id r, sr_score r) \<in> set (group_loop [] results)"
    by (cases r) (auto simp: group_and_sort_def)
  also have "\<dots> \<longleftrightarrow> map_of (group_loop [] results) (sr_id r) = Some (sr_score r)"
    using d by simp
  also have "\<dots> \<longleftrightarrow> (\<exists>x\<in>set results. base_id (sr_id x) = sr_id r)
     \<and> sr_score r = Max (insert 0 (sr_score ` {x \<in> set results. base_id (sr_id x) = sr_id r}))"
    unfolding group_loop_map_of by (auto simp: grouped_get_def)
  finally show ?thesis .
qed

lemma group_and_sort_distinct_ids: "distinct (map sr_id (group_and_sort results))"
proof -
  let ?rs = "map (\<lambda>(pid, sc). \<lparr> sr_id = pid, sr_score = sc \<rparr>) (group_loop [] results)"
  have d: "distinct (map fst (group_loop [] results))"
    by (rule group_loop_distinct) simp
  have m: "map sr_id ?rs = map fst (group_loop [] results)"
    by (simp add: case_prod_unfold comp_def)
  have "distinct (map sr_id ?rs)"
    unfolding m by (rule d)
  then have "distinct (map sr_id (sort_key (\<lambda>x. - sr_score x) ?rs))"
    by (metis distinct_map distinct_sort set_sort)
  then show ?thesis
    by (simp add: group_and_sort_def sort_by_score_desc_def)
qed

section \<open>Properties of ingestion\<close>

lemma append_loop_ok:
  assumes "list_all (\<lambda>(v, pid). length v = width vecs \<and> length v = width (index entry)) to_add"
  shows "append_loop entry vecs to_add =
           (None,
            entry\<lparr> index := (index entry)\<lparr> rows := rows (index entry) @ map fst to_add \<rparr>,
                   ids := ids entry @ map snd to_add \<rparr>,
            vecs\<lparr> rows := rows vecs @ map fst to_add \<rparr>)"
  using assms
proof (induction to_add arbitrary: entry vecs)
  case Nil
  then show ?case by simp
next
  case (Cons a to_add)
  obtain v pid where a: "a = (v, pid)" by (cases a)
  from Cons.prems a have len: "length v = width vecs" "length v = width (index entry)"
    and rest: "list_all (\<lambda>(v, pid). length v = width vecs \<and> length v = width (index entry)) to_add"
    by simp_all
  let ?entry' = "entry\<lparr> index := (index entry)\<lparr> rows := rows (index entry) @ [v] \<rparr>,
                         ids := ids entry @ [pid] \<rparr>"
  let ?vecs' = "vecs\<lparr> rows := rows vecs @ [v] \<rparr>"
  from rest have rest': "list_all (\<lambda>(v, pid). length v = width ?vecs'
                            \<and> length v = width (index ?entry')) to_add"
    by simp
  have "append_loop entry vecs (a # to_add) = append_loop ?entry' ?vecs' to_add"
    using len by (simp add: a np_vstack_def index_add_def)
  also note Cons.IH[OF rest']
  finally show ?case by (simp add: a)
qed

lemma store_rows_ok:
  assumes "to_add \<noteq> []" and "list_all (\<lambda>(v, pid). length v = d) to_add"
    and "scope_accepts s event_id d"
  shows "fst (store_rows s event_id to_add) = Inr True
       \<and> scope_ids (snd (store_rows s event_id to_add)) event_id
           = scope_ids s event_id @ map snd to_add
       \<and> scope_vectors (snd (store_rows s event_id to_add)) event_id
           = scope_vectors s event_id @ map fst to_add
       \<and> scope_index_rows (snd (store_rows s event_id to_add)) event_id
           = scope_index_rows s event_id @ map fst to_add
       \<and> scope_accepts (snd (store_rows s event_id to_add)) event_id d
       \<and> initialized (snd (store_rows s event_id to_add)) = initialized s"
proof -
  from assms(1,2) have hd: "length (fst (hd to_add)) = d"
    by (cases to_add) auto
  let ?s' = "get_or_create_index s event_id d"
  define entry where "entry = the (event_indices ?s' event_id)"
  have props: "event_indices ?s' event_id = Some entry
      \<and> width (index entry) = d \<and> width (vectors entry) = d
      \<and> ids entry = scope_ids s event_id
      \<and> rows (vectors entry) = scope_vectors s event_id
      \<and> rows (index entry) = scope_index_rows s event_id
      \<and> initialized ?s' = initialized s"
    using assms(3) unfolding entry_def
    by (cases "event_indices s event_id")
      (simp_all add: get_or_create_index_def scope_accepts_def scope_ids_def scope_vectors_def
         scope_index_rows_def)
  then have e: "event_indices ?s' event_id = Some entry"
    and w: "width (index entry) = d" "width (vectors entry) = d"
    and i: "ids entry = scope_ids s event_id"
    and r: "rows (vectors entry) = scope_vectors s event_id"
    and x: "rows (index entry) = scope_index_rows s event_id"
    and ini: "initialized ?s' = initialized s"
    by simp_all
  from assms(2) w have all: "list_all (\<lambda>(v, pid). length v = width (vectors entry)
                                   \<and> length v = width (index entry)) to_add"
    by (simp add: list_all_iff case_prod_unfold)
  show ?thesis
    unfolding store_rows_def hd
    by (simp add: Let_def e append_loop_ok[OF all] scope_ids_def scope_vectors_def
          scope_index_rows_def scope_accepts_def w i r x ini)
qed

lemma append_loop_None:
  "append_loop entry vecs to_add = (None, entry', vecs') \<Longrightarrow>
     ids entry' = ids entry @ map snd to_add
     \<and> rows (index entry') = rows (index entry) @ map fst to_add
     \<and> rows vecs' = rows vecs @ map fst to_add
     \<and> vectors entry' = vectors entry"
proof (induction to_add arbitrary: entry vecs)
  case Nil
  then show ?case by simp
next
  case (Cons a to_add)
  obtain v pid where a: "a = (v, pid)" by (cases a)
  from Cons.prems obtain vecs1 index1 where
      v1: "np_vstack vecs v = Inr vecs1" and i1: "index_add (index entry) v = Inr index1"
    and loop: "append_loop (entry\<lparr> index := index1, ids := ids entry @ [pid] \<rparr>) vecs1 to_add
                 = (None, entry', vecs')"
    by (auto simp: a split: sum.splits)
  from v1 have r1: "rows vecs1 = rows vecs @ [v]"
    by (auto simp: np_vstack_def split: if_splits)
  from i1 have r2: "rows index1 = rows (index entry) @ [v]"
    by (auto simp: index_add_def split: if_splits)
  from Cons.IH[OF loop] r1 r2 show ?case by (simp add: a)
qed

lemma scope_get_or_create:
  "scope_ids (get_or_create_index s event_id d) event_id = scope_ids s event_id
   \<and> scope_vectors (get_or_create_index s event_id d) event_id = scope_vectors s event_id
   \<and> scope_index_rows (get_or_create_index s event_id d) event_id = scope_index_rows s event_id
   \<and> event_indices (get_or_create_index s event_id d) event_id \<noteq> None"
  by (cases "event_indices s event_id")
    (simp_all add: get_or_create_index_def scope_ids_def scope_vectors_def scope_index_rows_def)

lemma store_rows_True:
  assumes "fst (store_rows s event_id to_add) = Inr True"
  shows "scope_ids (snd (store_rows s event_id to_add)) event_id
           = scope_ids s event_id @ map snd to_add
       \<and> scope_vectors (snd (store_rows s event_id to_add)) event_id
           = scope_vectors s event_id @ map fst to_add
       \<and> scope_index_rows (snd (store_rows s event_id to_add)) event_id
           = scope_index_rows s event_id @ map fst to_add"
proof -
  let ?s' = "get_or_create_index s event_id (length (fst (hd to_add)))"
  from scope_get_or_create[of s event_id "length (fst (hd to_add))"]
  obtain entry where e: "event_indices ?s' event_id = Some entry"
    and i: "ids entry = scope_ids s event_id"
    and r: "rows (vectors entry) = scope_vectors s event_id"
    and x: "rows (index entry) = scope_index_rows s event_id"
    by (auto simp: scope_ids_def scope_vectors_def scope_index_rows_def)
  obtain err entry' vecs' where l: "append_loop entry (vectors entry) to_add = (err, entry', vecs')"
    by (cases "append_loop entry (vectors entry) to_add")
  from assms e l have none: "err = None"
    by (cases err) (simp_all add: store_rows_def Let_def)
  from append_loop_None[OF l[unfolded none]] e l none i r x show ?thesis
    by (simp add: store_rows_def Let_def scope_ids_def scope_vectors_def scope_index_rows_def)
qed

lemma map_fst_zip_ids: "map fst (zip vecs (map f [0..<length vecs])) = vecs"
  by (simp add: map_fst_zip)

lemma map_snd_zip_ids: "map snd (zip vecs (map f [0..<length vecs])) = map f [0..<length vecs]"
  by (simp add: map_snd_zip)

lemma ingest_url_True:
  assumes "fst (ingest env s event_id photo_id image_url None) = Inr True"
  shows "\<exists>vecs. compute_embeddings_from_url env (the image_url) = Inr (Some vecs)
          \<and> scope_ids (snd (ingest env s event_id photo_id image_url None)) event_id
              = scope_ids s event_id @ map (face_id photo_id) [0..<length vecs]
          \<and> scope_vectors (snd (ingest env s event_id photo_id image_url None)) event_id
              = scope_vectors s event_id @ vecs"
proof -
  from assms obtain s1 where s1: "initialize env s = Inr s1"
    by (cases "initialize env s") (simp_all add: ingest_def)
  then have same: "event_indices s1 = event_indices s"
    by (auto simp: initialize_def split: if_splits)
  from assms s1 obtain vecs where
      v: "compute_embeddings_from_url env (the image_url) = Inr (Some vecs)" and ne: "vecs \<noteq> []"
    and url: "\<not> (image_url = None \<or> image_url = Some [])"
    by (auto simp: ingest_def split: if_splits sum.splits option.splits)
  let ?to_add = "zip vecs (map (face_id photo_id) [0..<length vecs])"
  from s1 v ne url
  have eq: "ingest env s event_id photo_id image_url None = store_rows s1 event_id ?to_add"
    by (auto simp: ingest_def)
  from assms store_rows_True[of s1 event_id ?to_add] same v show ?thesis
    unfolding eq
    by (simp add: map_fst_zip_ids map_snd_zip_ids scope_ids_def scope_vectors_def)
qed

lemma ingest_embedding_True:
  assumes "fst (ingest env s event_id photo_id image_url (Some emb)) = Inr True"
  shows "scope_ids (snd (ingest env s event_id photo_id image_url (Some emb))) event_id
              = scope_ids s event_id @ [photo_id]
          \<and> scope_vectors (snd (ingest env s event_id photo_id image_url (Some emb))) event_id
              = scope_vectors s event_id @ [unit_normalize emb]"
proof -
  from assms obtain s1 where s1: "initialize env s = Inr s1"
    by (cases "initialize env s") (simp_all add: ingest_def)
  then have same: "event_indices s1 = event_indices s"
    by (auto simp: initialize_def split: if_splits)
  from s1 have eq: "ingest env s event_id photo_id image_url (Some emb)
                     = store_rows s1 event_id [(unit_normalize emb, photo_id)]"
    by (simp add: ingest_def)
  from assms store_rows_True[of s1 event_id "[(unit_normalize emb, photo_id)]"] same show ?thesis
    unfolding eq by (simp add: scope_ids_def scope_vectors_def)
qed

lemma initialize_returns:
  assumes "initialized s \<or> init_succeeds env"
  shows "\<exists>s1. initialize env s = Inr s1 \<and> event_indices s1 = event_indices s \<and> initialized s1"
  using assms by (auto simp: initialize_def)

lemma ingest_embedding_returns:
  assumes "initialized s \<or> init_succeeds env" and "scope_accepts s event_id (length emb)"
  shows "fst (ingest env s event_id photo_id image_url (Some emb)) = Inr True"
proof -
  from initialize_returns[OF assms(1)] obtain s1 where s1: "initialize env s = Inr s1"
    and same: "event_indices s1 = event_indices s" by blast
  from assms(2) same have acc: "scope_accepts s1 event_id (length (unit_normalize emb))"
    by (simp add: scope_accepts_def unit_normalize_def)
  have "list_all (\<lambda>(v, pid). length v = length (unit_normalize emb)) [(unit_normalize emb, photo_id)]"
    by simp
  from store_rows_ok[OF _ this acc] s1 show ?thesis
    by (simp add: ingest_def)
qed

lemma ingest_url_returns:
  assumes "initialized s \<or> init_succeeds env"
    and "image_url = Some url" and "url \<noteq> []"
    and "compute_embeddings_from_url env url = Inr (Some vecs)" and "vecs \<noteq> []"
    and "list_all (\<lambda>v. length v = d) vecs" and "scope_accepts s event_id d"
  shows "fst (ingest env s event_id photo_id image_url None) = Inr True"
proof -
  from initialize_returns[OF assms(1)] obtain s1 where s1: "initialize env s = Inr s1"
    and same: "event_indices s1 = event_indices s" by blast
  from assms(7) same have acc: "scope_accepts s1 event_id d"
    by (simp add: scope_accepts_def)
  let ?to_add = "zip vecs (map (face_id photo_id) [0..<length vecs])"
  from assms(5) have ne: "?to_add \<noteq> []" by (cases vecs) (simp_all add: upt_conv_Cons)
  from assms(6) have all: "list_all (\<lambda>(v, pid). length v = d) ?to_add"
    by (auto simp: list_all_iff dest: set_zip_leftD)
  from store_rows_ok[OF ne all acc] s1 assms(2-5) show ?thesis
    by (simp add: ingest_def)
qed

lemma append_loop_ids_prefix:
  "\<exists>k\<le>length to_add. ids (fst (snd (append_loop entry vecs to_add)))
                          = ids entry @ take k (map snd to_add)"
proof (induction to_add arbitrary: entry vecs)
  case Nil
  then show ?case by simp
next
  case (Cons a to_add)
  obtain v pid where a: "a = (v, pid)" by (cases a)
  show ?case
  proof (cases "np_vstack vecs v")
    case (Inl e)
    then have "ids (fst (snd (append_loop entry vecs (a # to_add)))) = ids entry @ take 0 (map snd (a # to_add))"
      by (simp add: a)
    then show ?thesis by blast
  next
    case vs: (Inr vecs1)
    show ?thesis
    proof (cases "index_add (index entry) v")
      case (Inl e)
      with vs have "ids (fst (snd (append_loop entry vecs (a # to_add))))
                     = ids entry @ take 0 (map snd (a # to_add))"
        by (simp add: a)
      then show ?thesis by blast
    next
      case (Inr index1)
      let ?entry1 = "entry\<lparr> index := index1, ids := ids entry @ [pid] \<rparr>"
      from Cons.IH[of ?entry1 vecs1] obtain k where k: "k \<le> length to_add"
        and i: "ids (fst (snd (append_loop ?entry1 vecs1 to_add)))
                  = ids ?entry1 @ take k (map snd to_add)"
        by blast
      from vs Inr i have "ids (fst (snd (append_loop entry vecs (a # to_add))))
                     = ids entry @ take (Suc k) (map snd (a # to_add))"
        by (simp add: a)
      with k show ?thesis by (metis Suc_le_mono length_Cons)
    qed
  qed
qed

lemma store_rows_ids_prefix:
  "\<exists>k\<le>length to_add. scope_ids (snd (store_rows s event_id to_add)) event_id
                          = scope_ids s event_id @ take k (map snd to_add)"
proof -
  let ?s' = "get_or_create_index s event_id (length (fst (hd to_add)))"
  from scope_get_or_create[of s event_id "length (fst (hd to_add))"]
  obtain entry where e: "event_indices ?s' event_id = Some entry"
    and i: "ids entry = scope_ids s event_id"
    by (auto simp: scope_ids_def)
  obtain err entry' vecs' where l: "append_loop entry (vectors entry) to_add = (err, entry', vecs')"
    by (cases "append_loop entry (vectors entry) to_add")
  from append_loop_ids_prefix[of to_add entry "vectors entry"] l i
  obtain k where k: "k \<le> length to_add"
    and p: "ids entry' = scope_ids s event_id @ take k (map snd to_add)"
    by auto
  have "scope_ids (snd (store_rows s event_id to_add)) event_id = ids entry'"
    using e l by (cases err) (simp_all add: store_rows_def Let_def scope_ids_def)
  with k p show ?thesis by auto
qed

lemma ingest_url_ids_prefix:
  assumes "compute_embeddings_from_url env (the image_url) = Inr (Some vecs)"
  shows "\<exists>k\<le>length vecs. scope_ids (snd (ingest env s event_id photo_id image_url None)) event_id
                          = scope_ids s event_id @ map (face_id photo_id) [0..<k]"
proof (cases "initialize env s")
  case (Inl e)
  then have "scope_ids (snd (ingest env s event_id photo_id image_url None)) event_id
               = scope_ids s event_id @ map (face_id photo_id) [0..<0]"
    by (simp add: ingest_def)
  then show ?thesis by blast
next
  case (Inr s1)
  then have same: "event_indices s1 = event_indices s"
    by (auto simp: initialize_def split: if_splits)
  then have ids1: "scope_ids s1 event_id = scope_ids s event_id"
    by (simp add: scope_ids_def)
  let ?to_add = "zip vecs (map (face_id photo_id) [0..<length vecs])"
  show ?thesis
  proof (cases "image_url = None \<or> image_url = Some [] \<or> vecs = []")
    case True
    with Inr assms ids1
    have "scope_ids (snd (ingest env s event_id photo_id image_url None)) event_id
               = scope_ids s event_id @ map (face_id photo_id) [0..<0]"
      by (auto simp: ingest_def)
    then show ?thesis by blast
  next
    case False
    with Inr assms
    have eq: "ingest env s event_id photo_id image_url None = store_rows s1 event_id ?to_add"
      by (auto simp: ingest_def)
    from store_rows_ids_prefix[of ?to_add s1 event_id] obtain k where k: "k \<le> length vecs"
      and p: "scope_ids (snd (store_rows s1 event_id ?to_add)) event_id
                = scope_ids s1 event_id @ take k (map snd ?to_add)"
      by auto
    have "take k (map snd ?to_add) = map (face_id photo_id) [0..<k]"
      using k by (simp add: map_snd_zip_ids take_map)
    with p eq ids1 k show ?thesis by auto
  qed
qed

text \<open>
  Claim C7. When \<open>ingest\<close> succeeds on the image-URL path, the identifiers appended to
  the scope are the item id followed by \<open>#\<close> and the face ordinal, one per extracted
  vector and in their order, and the vectors are appended as separate rows. When it
  succeeds with a supplied vector, the one identifier appended is the bare item id. The
  earlier identifiers and rows stay in place, so ingesting the same item id twice leaves
  two rows for it. Whatever the outcome of a call on the image-URL path, the identifiers
  it has appended are the item id with the ordinals \<open>0, 1, ...\<close> in turn. The call succeeds
  when initialisation succeeds and the vectors have the width of the scope (any width for
  a new scope).
\<close>

theorem ingest_identifier_scheme:
  "(fst (ingest env s event_id photo_id image_url None) = Inr True \<longrightarrow>
      (\<exists>vecs. compute_embeddings_from_url env (the image_url) = Inr (Some vecs)
         \<and> scope_ids (snd (ingest env s event_id photo_id image_url None)) event_id
             = scope_ids s event_id @ map (face_id photo_id) [0..<length vecs]
         \<and> scope_vectors (snd (ingest env s event_id photo_id image_url None)) event_id
             = scope_vectors s event_id @ vecs))
   \<and> (fst (ingest env s event_id photo_id image_url (Some emb)) = Inr True \<longrightarrow>
         scope_ids (snd (ingest env s event_id photo_id image_url (Some emb))) event_id
           = scope_ids s event_id @ [photo_id]
       \<and> scope_vectors (snd (ingest env s event_id photo_id image_url (Some emb))) event_id
           = scope_vectors s event_id @ [unit_normalize emb])
   \<and> (fst (ingest env s event_id photo_id image_url (Some emb)) = Inr True
        \<and> fst (ingest env (snd (ingest env s event_id photo_id image_url (Some emb)))
                 event_id photo_id image_url' (Some emb')) = Inr True \<longrightarrow>
         scope_ids (snd (ingest env (snd (ingest env s event_id photo_id image_url (Some emb)))
                           event_id photo_id image_url' (Some emb'))) event_id
           = scope_ids s event_id @ [photo_id, photo_id])
   \<and> (compute_embeddings_from_url env (the image_url) = Inr (Some vecs) \<longrightarrow>
         (\<exists>k\<le>length vecs.
            scope_ids (snd (ingest env s event_id photo_id image_url None)) event_id
              = scope_ids s event_id @ map (face_id photo_id) [0..<k]))
   \<and> ((initialized s \<or> init_succeeds env) \<and> scope_accepts s event_id (length emb) \<longrightarrow>
         fst (ingest env s event_id photo_id image_url (Some emb)) = Inr True)
   \<and> ((initialized s \<or> init_succeeds env) \<and> image_url = Some url \<and> url \<noteq> []
        \<and> compute_embeddings_from_url env url = Inr (Some vecs) \<and> vecs \<noteq> []
        \<and> list_all (\<lambda>v. length v = d) vecs \<and> scope_accepts s event_id d \<longrightarrow>
         fst (ingest env s event_id photo_id image_url None) = Inr True)"
proof (intro conjI impI)
  assume "fst (ingest env s event_id photo_id image_url None) = Inr True"
  from ingest_url_True[OF this]
  show "\<exists>vecs. compute_embeddings_from_url env (the image_url) = Inr (Some vecs)
         \<and> scope_ids (snd (ingest env s event_id photo_id image_url None)) event_id
             = scope_ids s event_id @ map (face_id photo_id) [0..<length vecs]
         \<and> scope_vectors (snd (ingest env s event_id photo_id image_url None)) event_id
             = scope_vectors s event_id @ vecs" .
next
  assume a: "fst (ingest env s event_id photo_id image_url (Some emb)) = Inr True"
  from ingest_embedding_True[OF a]
  show "scope_ids (snd (ingest env s event_id photo_id image_url (Some emb))) event_id
           = scope_ids s event_id @ [photo_id]"
    and "scope_vectors (snd (ingest env s event_id photo_id image_url (Some emb))) event_id
           = scope_vectors s event_id @ [unit_normalize emb]"
    by simp_all
next
  assume a: "fst (ingest env s event_id photo_id image_url (Some emb)) = Inr True
        \<and> fst (ingest env (snd (ingest env s event_id photo_id image_url (Some emb)))
                 event_id photo_id image_url' (Some emb')) = Inr True"
  from a ingest_embedding_True[of env s event_id photo_id image_url emb]
    ingest_embedding_True[of env "snd (ingest env s event_id photo_id image_url (Some emb))"
      event_id photo_id image_url' emb']
  show "scope_ids (snd (ingest env (snd (ingest env s event_id photo_id image_url (Some emb)))
                           event_id photo_id image_url' (Some emb'))) event_id
           = scope_ids s event_id @ [photo_id, photo_id]"
    by simp
next
  assume "compute_embeddings_from_url env (the image_url) = Inr (Some vecs)"
  from ingest_url_ids_prefix[OF this]
  show "\<exists>k\<le>length vecs.
            scope_ids (snd (ingest env s event_id photo_id image_url None)) event_id
              = scope_ids s event_id @ map (face_id photo_id) [0..<k]" .
next
  assume "(initialized s \<or> init_succeeds env) \<and> scope_accepts s event_id (length emb)"
  then show "fst (ingest env s event_id photo_id image_url (Some emb)) = Inr True"
    using ingest_embedding_returns by blast
next
  assume "(initialized s \<or> init_succeeds env) \<and> image_url = Some url \<and> url \<noteq> []
        \<and> compute_embeddings_from_url env url = Inr (Some vecs) \<and> vecs \<noteq> []
        \<and> list_all (\<lambda>v. length v = d) vecs \<and> scope_accepts s event_id d"
  then show "fst (ingest env s event_id photo_id image_url None) = Inr True"
    using ingest_url_returns by blast
qed

section \<open>Properties of search\<close>

lemma collect_results_Inr:
  "collect_results ids_list threshold acc hits = Inr results \<Longrightarrow>
     results = acc @ map (hit_result ids_list) (kept_hits threshold hits)"
proof (induction hits arbitrary: acc)
  case Nil
  then show ?case by (simp add: kept_hits_def)
next
  case (Cons h hits)
  obtain score idx where h: "h = (score, idx)" by (cases h)
  show ?case
  proof (cases "0 \<le> idx \<and> threshold \<le> score")
    case True
    with Cons.prems h have
      "collect_results ids_list threshold
         (acc @ [\<lparr> sr_id = ids_list ! nat idx, sr_score = score \<rparr>]) hits = Inr results"
      by (auto split: if_splits)
    from Cons.IH[OF this] True h show ?thesis
      by (simp add: kept_hits_def hit_result_def)
  next
    case False
    with Cons.prems h have "collect_results ids_list threshold acc hits = Inr results"
      by (auto split: if_splits)
    from Cons.IH[OF this] False h show ?thesis
      by (auto simp: kept_hits_def)
  qed
qed

lemma collect_results_returns:
  assumes "list_all (\<lambda>(score, idx). idx < int (length ids_list)) hits"
  shows "\<exists>results. collect_results ids_list threshold acc hits = Inr results"
  using assms
proof (induction hits arbitrary: acc)
  case Nil
  then show ?case by simp
next
  case (Cons h hits)
  obtain score idx where h: "h = (score, idx)" by (cases h)
  from Cons.prems h have "idx < int (length ids_list)"
    and rest: "list_all (\<lambda>(score, idx). idx < int (length ids_list)) hits"
    by simp_all
  then have "0 \<le> idx \<Longrightarrow> nat idx < length ids_list" by simp
  with Cons.IH[OF rest] h show ?case by simp
qed

lemma match_faces_searched:
  assumes "initialize env s = Inr s1"
    and "event_indices s1 event_id = Some entry" and "ids entry \<noteq> []"
    and "index_search env (index entry) (unit_normalize q)
           (min top_k (int (length (ids entry)))) = Inr hits"
    and "collect_results (ids entry) threshold [] hits = Inr results"
  shows "match_faces env s event_id q top_k threshold = (Inr (group_and_sort results), s1)"
  using assms by (simp add: match_faces_def)

lemma group_and_sort_sorted:
  "sorted_wrt (\<lambda>a b. sr_score a \<ge> sr_score b) (group_and_sort results)"
  by (simp add: group_and_sort_def sort_by_score_desc_sorted)

lemma Max_insert_floor:
  assumes "finite S" and "x \<in> S"
  shows "Max (insert (0::real) S) \<ge> 0 \<and> Max (insert 0 S) \<ge> x
         \<and> (x < 0 \<longrightarrow> x < Max (insert 0 S))
         \<and> ((\<forall>y\<in>S. y < 0) \<longrightarrow> Max (insert 0 S) = 0)
         \<and> ((\<forall>y\<in>S. 0 \<le> y) \<longrightarrow> Max (insert 0 S) = Max S)"
proof -
  from assms have ne: "S \<noteq> {}" by auto
  have m: "Max (insert 0 S) = max 0 (Max S)"
    using assms(1) ne by simp
  have ge: "x \<le> Max S" using assms by simp
  have neg: "(\<forall>y\<in>S. y < 0) \<Longrightarrow> Max S < 0"
    using assms(1) ne by simp
  have pos: "(\<forall>y\<in>S. 0 \<le> y) \<Longrightarrow> 0 \<le> Max S"
    using assms(1) ne ge assms(2) by (meson order_trans)
  from m ge neg pos show ?thesis by auto
qed

text \<open>
  Claim C10. In \<open>match\<close>, for every entry that passed the threshold, the result holds an
  entry for its base id whose score is the maximum of 0.0 and the scores of the kept
  entries with that base id: it is never negative, it is strictly above the entry's own
  score when that score is negative, and it is exactly 0.0 when all kept scores of the base
  id are negative.
\<close>

theorem match_grouped_score_floor:
  assumes "initialize env s = Inr s1"
    and "event_indices s1 event_id = Some entry" and "ids entry \<noteq> []"
    and "index_search env (index entry) (unit_normalize q)
           (min top_k (int (length (ids entry)))) = Inr hits"
    and "collect_results (ids entry) threshold [] hits = Inr results"
  shows "fst (match_faces env s event_id q top_k threshold) = Inr (group_and_sort results)
       \<and> results = map (hit_result (ids entry)) (kept_hits threshold hits)
       \<and> (\<forall>x\<in>set results. \<exists>r\<in>set (group_and_sort results).
             sr_id r = base_id (sr_id x)
             \<and> sr_score r = Max (insert 0 (sr_score `
                                {y \<in> set results. base_id (sr_id y) = base_id (sr_id x)}))
             \<and> sr_score r \<ge> 0
             \<and> (sr_score x < 0 \<longrightarrow> sr_score x < sr_score r)
             \<and> ((\<forall>y\<in>set results. base_id (sr_id y) = base_id (sr_id x) \<longrightarrow> sr_score y < 0)
                   \<longrightarrow> sr_score r = 0))"
proof (intro conjI ballI)
  show "fst (match_faces env s event_id q top_k threshold) = Inr (group_and_sort results)"
    using match_faces_searched[OF assms] by simp
  show "results = map (hit_result (ids entry)) (kept_hits threshold hits)"
    using collect_results_Inr[OF assms(5)] by simp
next
  fix x
  assume x: "x \<in> set results"
  let ?S = "sr_score ` {y \<in> set results. base_id (sr_id y) = base_id (sr_id x)}"
  let ?r = "\<lparr> sr_id = base_id (sr_id x), sr_score = Max (insert 0 ?S) \<rparr>"
  have fin: "finite ?S" by simp
  from x have mem: "sr_score x \<in> ?S" by auto
  from x have r: "?r \<in> set (group_and_sort results)"
    unfolding group_and_sort_members by auto
  note f = Max_insert_floor[OF fin mem]
  have neg: "(\<forall>y\<in>set results. base_id (sr_id y) = base_id (sr_id x) \<longrightarrow> sr_score y < 0)
               \<longrightarrow> sr_score ?r = 0"
    using f by auto
  from f neg
  have "sr_id ?r = base_id (sr_id x)
             \<and> sr_score ?r = Max (insert 0 ?S)
             \<and> sr_score ?r \<ge> 0
             \<and> (sr_score x < 0 \<longrightarrow> sr_score x < sr_score ?r)
             \<and> ((\<forall>y\<in>set results. base_id (sr_id y) = base_id (sr_id x) \<longrightarrow> sr_score y < 0)
                   \<longrightarrow> sr_score ?r = 0)"
    by simp
  with r show "\<exists>r\<in>set (group_and_sort results).
             sr_id r = base_id (sr_id x)
             \<and> sr_score r = Max (insert 0 ?S)
             \<and> sr_score r \<ge> 0
             \<and> (sr_score x < 0 \<longrightarrow> sr_score x < sr_score r)
             \<and> ((\<forall>y\<in>set results. base_id (sr_id y) = base_id (sr_id x) \<longrightarrow> sr_score y < 0)
                   \<longrightarrow> sr_score r = 0)"
    by (rule rev_bexI)
qed

lemma group_and_sort_max_when_nonnegative:
  assumes "\<forall>x\<in>set results. 0 \<le> sr_score x" and "r \<in> set (group_and_sort results)"
  shows "sr_score r = Max (sr_score ` {x \<in> set results. base_id (sr_id x) = sr_id r})"
proof -
  let ?S = "sr_score ` {x \<in> set results. base_id (sr_id x) = sr_id r}"
  from assms(2) obtain x where x: "x \<in> set results" "base_id (sr_id x) = sr_id r"
    and s: "sr_score r = Max (insert 0 ?S)"
    unfolding group_and_sort_members by blast
  from x have mem: "sr_score x \<in> ?S" by auto
  from assms(1) have "\<forall>y\<in>?S. 0 \<le> y" by auto
  with Max_insert_floor[OF _ mem] s show ?thesis by simp
qed

lemma kept_hits_threshold:
  "x \<in> set (map (hit_result ids_list) (kept_hits threshold hits)) \<Longrightarrow> threshold \<le> sr_score x"
  by (auto simp: kept_hits_def hit_result_def)

text \<open>
  Claim C8, as amended. When the service is initialised, or its initialisation succeeds,
  \<open>match\<close> on a scope that was never created, or that holds no identifier, returns the
  empty list, whatever the query vector, \<open>top_k\<close> and threshold.
\<close>

theorem match_empty_or_unknown_scope:
  assumes "initialized s \<or> init_succeeds env"
    and "event_indices s event_id = None
         \<or> (\<exists>entry. event_indices s event_id = Some entry \<and> ids entry = [])"
  shows "fst (match_faces env s event_id q top_k threshold) = Inr []"
proof -
  from initialize_returns[OF assms(1)] obtain s1 where s1: "initialize env s = Inr s1"
    and same: "event_indices s1 = event_indices s" by blast
  from assms(2) show ?thesis
  proof
    assume "event_indices s event_id = None"
    with s1 same show ?thesis by (simp add: match_faces_def)
  next
    assume "\<exists>entry. event_indices s event_id = Some entry \<and> ids entry = []"
    with s1 same show ?thesis by (auto simp: match_faces_def)
  qed
qed

text \<open>
  Claim C8 as stated fails for a service that is not initialised and whose \<open>initialize\<close>
  fails (the imports of \<open>_try_imports\<close> raise \<open>RuntimeError\<close>): \<open>match\<close> raises before it
  looks the scope up.
\<close>

theorem match_unknown_scope_uninitialized_counterexample:
  "event_indices fresh_service ''nowhere'' = None
   \<and> fst (match_faces broken_env fresh_service ''nowhere'' [1, 0] 20 0.35) = Inl RuntimeError
   \<and> fst (match_faces broken_env fresh_service ''nowhere'' [1, 0] 20 0.35) \<noteq> Inr []"
  by (simp add: match_faces_def initialize_def fresh_service_def broken_env_def)

lemma unit_normalize_axis: "unit_normalize [1, 0] = [1 / (1 + 1 / 10 ^ 8), 0]"
  by (simp add: unit_normalize_def linalg_norm_def)

lemma example_search_hits:
  "index_search example_env \<lparr> width = 2, rows = [[- 0.6, 0.8], [- 0.8, 0.6]] \<rparr>
       (unit_normalize [1, 0]) 2
     = Inr [(- 0.6 / (1 + 1 / 10 ^ 8), 0), (- 0.8 / (1 + 1 / 10 ^ 8), 1)]"
  by (simp add: example_env_def exact_inner_product_search_def unit_normalize_axis np_dot_def
        sort_by_score_desc_def upt_conv_Cons)

lemma example_collect_results:
  "collect_results [''p#0'', ''p#1''] (- 1) []
       [(- 0.6 / (1 + 1 / 10 ^ 8), 0), (- 0.8 / (1 + 1 / 10 ^ 8), 1)]
     = Inr [\<lparr> sr_id = ''p#0'', sr_score = - 0.6 / (1 + 1 / 10 ^ 8) \<rparr>,
            \<lparr> sr_id = ''p#1'', sr_score = - 0.8 / (1 + 1 / 10 ^ 8) \<rparr>]"
  by simp

lemma example_group_and_sort:
  "group_and_sort [\<lparr> sr_id = ''p#0'', sr_score = - 0.6 / (1 + 1 / 10 ^ 8) \<rparr>,
                   \<lparr> sr_id = ''p#1'', sr_score = - 0.8 / (1 + 1 / 10 ^ 8) \<rparr>]
     = [\<lparr> sr_id = ''p'', sr_score = 0 \<rparr>]"
  by (simp add: group_and_sort_def sort_by_score_desc_def base_id_def grouped_get_def)

lemma example_entry:
  "event_indices example_service ''event''
     = Some \<lparr> index = \<lparr> width = 2, rows = [[- 0.6, 0.8], [- 0.8, 0.6]] \<rparr>,
              ids = [''p#0'', ''p#1''],
              vectors = \<lparr> width = 2, rows = [[- 0.6, 0.8], [- 0.8, 0.6]] \<rparr> \<rparr>"
  by (simp add: example_service_def)

lemma example_initialize: "initialize example_env example_service = Inr example_service"
  by (simp add: initialize_def example_service_def)

lemma match_faces_negative_example:
  "match_faces example_env example_service ''event'' [1, 0] 20 (- 1)
     = (Inr [\<lparr> sr_id = ''p'', sr_score = 0 \<rparr>], example_service)"
proof -
  let ?entry = "\<lparr> index = \<lparr> width = 2, rows = [[- 0.6, 0.8], [- 0.8, 0.6]] \<rparr>,
                  ids = [''p#0'', ''p#1''],
                  vectors = \<lparr> width = 2, rows = [[- 0.6, 0.8], [- 0.8, 0.6]] \<rparr> \<rparr>"
  have k: "min 20 (int (length (ids ?entry))) = 2" by simp
  have h: "index_search example_env (index ?entry) (unit_normalize [1, 0])
             (min 20 (int (length (ids ?entry))))
           = Inr [(- 0.6 / (1 + 1 / 10 ^ 8), 0), (- 0.8 / (1 + 1 / 10 ^ 8), 1)]"
    unfolding k using example_search_hits by simp
  have c: "collect_results (ids ?entry) (- 1) []
             [(- 0.6 / (1 + 1 / 10 ^ 8), 0), (- 0.8 / (1 + 1 / 10 ^ 8), 1)]
           = Inr [\<lparr> sr_id = ''p#0'', sr_score = - 0.6 / (1 + 1 / 10 ^ 8) \<rparr>,
                  \<lparr> sr_id = ''p#1'', sr_score = - 0.8 / (1 + 1 / 10 ^ 8) \<rparr>]"
    using example_collect_results by simp
  have n: "ids ?entry \<noteq> []" by simp
  show ?thesis
    unfolding match_faces_searched[OF example_initialize example_entry n h c]
      example_group_and_sort ..
qed


text \<open>
  Claim C2. The scope \<open>event\<close> holds \<open>p#0\<close> and \<open>p#1\<close>, both stored vectors pointing away
  from the query: the search scores them about -0.6 and -0.8, and both pass the threshold
  -1. The claim asks for one result for \<open>p\<close> with the maximum score, about -0.6;
  \<open>match\<close> returns \<open>p\<close> with score 0.0, the default of \<open>grouped.get(base_id, 0.0)\<close>.
\<close>

theorem match_faces_negative_scores_reported_as_zero:
  "ids (the (event_indices example_service ''event'')) = [''p#0'', ''p#1'']
   \<and> index_search example_env (index (the (event_indices example_service ''event'')))
         (unit_normalize [1, 0]) 2
       = Inr [(- 0.6 / (1 + 1 / 10 ^ 8), 0), (- 0.8 / (1 + 1 / 10 ^ 8), 1)]
   \<and> (- 1 :: real) \<le> - 0.8 / (1 + 1 / 10 ^ 8)
   \<and> Max {- 0.6 / (1 + 1 / 10 ^ 8), - 0.8 / (1 + 1 / 10 ^ 8)} = (- 0.6 / (1 + 1 / 10 ^ 8) :: real)
   \<and> (- 0.6 / (1 + 1 / 10 ^ 8) :: real) < 0
   \<and> fst (match_faces example_env example_service ''event'' [1, 0] 20 (- 1))
       = Inr [\<lparr> sr_id = ''p'', sr_score = 0 \<rparr>]"
proof -
  have a: "ids (the (event_indices example_service ''event'')) = [''p#0'', ''p#1'']"
    by (simp add: example_entry)
  have h: "index_search example_env (index (the (event_indices example_service ''event'')))
         (unit_normalize [1, 0]) 2
       = Inr [(- 0.6 / (1 + 1 / 10 ^ 8), 0), (- 0.8 / (1 + 1 / 10 ^ 8), 1)]"
    using example_search_hits by (simp add: example_entry)
  have t: "(- 1 :: real) \<le> - 0.8 / (1 + 1 / 10 ^ 8)" by simp
  have x: "Max {- 0.6 / (1 + 1 / 10 ^ 8), - 0.8 / (1 + 1 / 10 ^ 8)}
             = (- 0.6 / (1 + 1 / 10 ^ 8) :: real)"
    by simp
  have n: "(- 0.6 / (1 + 1 / 10 ^ 8) :: real) < 0" by simp
  have m: "fst (match_faces example_env example_service ''event'' [1, 0] 20 (- 1))
       = Inr [\<lparr> sr_id = ''p'', sr_score = 0 \<rparr>]"
    unfolding match_faces_negative_example by (rule fst_conv)
  from a h t x n m show ?thesis by blast
qed

theorem match_grouped_score_floor_witness:
  "initialize example_env example_service = Inr example_service
   \<and> fst (match_faces example_env example_service ''event'' [1, 0] 20 (- 1))
       = Inr [\<lparr> sr_id = ''p'', sr_score = 0 \<rparr>]
   \<and> collect_results [''p#0'', ''p#1''] (- 1) []
         [(- 0.6 / (1 + 1 / 10 ^ 8), 0), (- 0.8 / (1 + 1 / 10 ^ 8), 1)]
       = Inr [\<lparr> sr_id = ''p#0'', sr_score = - 0.6 / (1 + 1 / 10 ^ 8) \<rparr>,
              \<lparr> sr_id = ''p#1'', sr_score = - 0.8 / (1 + 1 / 10 ^ 8) \<rparr>]
   \<and> (\<exists>r\<in>set [\<lparr> sr_id = ''p'', sr_score = 0 \<rparr>].
         sr_id r = base_id ''p#0'' \<and> sr_score r = 0 \<and> - 0.6 / (1 + 1 / 10 ^ 8) < sr_score r)"
proof -
  let ?entry = "\<lparr> index = \<lparr> width = 2, rows = [[- 0.6, 0.8], [- 0.8, 0.6]] \<rparr>,
                  ids = [''p#0'', ''p#1''],
                  vectors = \<lparr> width = 2, rows = [[- 0.6, 0.8], [- 0.8, 0.6]] \<rparr> \<rparr>"
  let ?x = "\<lparr> sr_id = ''p#0'', sr_score = - 0.6 / (1 + 1 / 10 ^ 8) \<rparr>"
  let ?results = "[?x, \<lparr> sr_id = ''p#1'', sr_score = - 0.8 / (1 + 1 / 10 ^ 8) \<rparr>]"
  have k: "min 20 (int (length (ids ?entry))) = 2" by simp
  have h: "index_search example_env (index ?entry) (unit_normalize [1, 0])
             (min 20 (int (length (ids ?entry))))
           = Inr [(- 0.6 / (1 + 1 / 10 ^ 8), 0), (- 0.8 / (1 + 1 / 10 ^ 8), 1)]"
    unfolding k using example_search_hits by simp
  have c: "collect_results (ids ?entry) (- 1) []
             [(- 0.6 / (1 + 1 / 10 ^ 8), 0), (- 0.8 / (1 + 1 / 10 ^ 8), 1)] = Inr ?results"
    using example_collect_results by simp
  have n: "ids ?entry \<noteq> []" by simp
  have x: "?x \<in> set ?results" by simp
  have neg: "sr_score ?x < 0" by simp
  from match_grouped_score_floor[OF example_initialize example_entry n h c] x neg
  have "fst (match_faces example_env example_service ''event'' [1, 0] 20 (- 1))
          = Inr (group_and_sort ?results)
      \<and> (\<exists>r\<in>set (group_and_sort ?results).
            sr_id r = base_id (sr_id ?x) \<and> sr_score r \<ge> 0 \<and> sr_score ?x < sr_score r)"
    by fastforce
  then have "fst (match_faces example_env example_service ''event'' [1, 0] 20 (- 1))
          = Inr [\<lparr> sr_id = ''p'', sr_score = 0 \<rparr>]
      \<and> (\<exists>r\<in>set [\<lparr> sr_id = ''p'', sr_score = 0 \<rparr>].
            sr_id r = base_id ''p#0'' \<and> sr_score r = 0 \<and> - 0.6 / (1 + 1 / 10 ^ 8) < sr_score r)"
    unfolding example_group_and_sort by simp
  with example_initialize example_collect_results show ?thesis by blast
qed

theorem match_empty_or_unknown_scope_witness:
  "(initialized fresh_service \<or> init_succeeds example_env)
   \<and> event_indices fresh_service ''nowhere'' = None
   \<and> fst (match_faces example_env fresh_service ''nowhere'' [1, 0] 20 0.35) = Inr []
   \<and> (initialized example_service \<or> init_succeeds broken_env)
   \<and> (\<exists>entry. event_indices example_service ''idle'' = Some entry \<and> ids entry = [])
   \<and> fst (match_faces broken_env example_service ''idle'' [1, 0] 20 0.35) = Inr []"
proof -
  have a: "initialized fresh_service \<or> init_succeeds example_env"
    by (simp add: example_env_def)
  have b: "event_indices fresh_service ''nowhere'' = None"
    by (simp add: fresh_service_def)
  have c: "initialized example_service \<or> init_succeeds broken_env"
    by (simp add: example_service_def)
  have d: "\<exists>entry. event_indices example_service ''idle'' = Some entry \<and> ids entry = []"
    by (simp add: example_service_def)
  from match_empty_or_unknown_scope[OF a, of "''nowhere''" "[1, 0]" 20 "0.35"] b
  have 1: "fst (match_faces example_env fresh_service ''nowhere'' [1, 0] 20 0.35) = Inr []"
    by blast
  from match_empty_or_unknown_scope[OF c, of "''idle''" "[1, 0]" 20 "0.35"] d
  have 2: "fst (match_faces broken_env example_service ''idle'' [1, 0] 20 0.35) = Inr []"
    by blast
  from a b c d 1 2 show ?thesis by blast
qed

lemma ingest_url_example:
  "ingest example_env fresh_service ''event'' ''p'' (Some ''two-faces'') None
     = (Inr True,
        \<lparr> initialized = True,
          event_indices =
            [''event'' \<mapsto>
               \<lparr> index = \<lparr> width = 2, rows = [[- 0.6, 0.8], [- 0.8, 0.6]] \<rparr>,
                 ids = [''p#0'', ''p#1''],
                 vectors = \<lparr> width = 2, rows = [[- 0.6, 0.8], [- 0.8, 0.6]] \<rparr> \<rparr>] \<rparr>)"
  by (simp add: ingest_def initialize_def example_env_def fresh_service_def store_rows_def
        get_or_create_index_def np_vstack_def index_add_def face_id_def str_nat.simps
        upt_conv_Cons Let_def numeral_2_eq_2)

theorem ingest_identifier_scheme_witness:
  "fst (ingest example_env fresh_service ''event'' ''p'' (Some ''two-faces'') None) = Inr True
   \<and> compute_embeddings_from_url example_env ''two-faces''
       = Inr (Some [[- 0.6, 0.8], [- 0.8, 0.6]])
   \<and> scope_ids (snd (ingest example_env fresh_service ''event'' ''p'' (Some ''two-faces'') None))
        ''event'' = [''p#0'', ''p#1'']
   \<and> fst (ingest example_env example_service ''event'' ''p'' None (Some [3, 4])) = Inr True
   \<and> scope_ids (snd (ingest example_env example_service ''event'' ''p'' None (Some [3, 4])))
        ''event'' = [''p#0'', ''p#1'', ''p'']
   \<and> scope_ids
        (snd (ingest example_env
                (snd (ingest example_env example_service ''event'' ''p'' None (Some [3, 4])))
                ''event'' ''p'' None (Some [0, 1])))
        ''event'' = [''p#0'', ''p#1'', ''p'', ''p'']"
proof -
  let ?s1 = "snd (ingest example_env example_service ''event'' ''p'' None (Some [3, 4]))"
  have c: "compute_embeddings_from_url example_env ''two-faces''
             = Inr (Some [[- 0.6, 0.8], [- 0.8, 0.6]])"
    by (simp add: example_env_def)
  have i0: "initialized fresh_service \<or> init_succeeds example_env"
    by (simp add: example_env_def)
  have i1: "initialized example_service \<or> init_succeeds example_env"
    by (simp add: example_env_def)
  have i2: "initialized ?s1 \<or> init_succeeds example_env"
    by (simp add: example_env_def)
  have a0: "scope_accepts fresh_service ''event'' 2"
    by (simp add: scope_accepts_def fresh_service_def)
  have a1: "scope_accepts example_service ''event'' (length [3, 4 :: real])"
    by (simp add: scope_accepts_def example_service_def)
  have ids0: "scope_ids fresh_service ''event'' = []"
    by (simp add: scope_ids_def fresh_service_def)
  have ids1: "scope_ids example_service ''event'' = [''p#0'', ''p#1'']"
    by (simp add: scope_ids_def example_service_def)
  have f: "map (face_id ''p'') [0..<length [[- 0.6, 0.8], [- 0.8, 0.6 :: real]]]
             = [''p#0'', ''p#1'']"
    by (simp add: face_id_def str_nat.simps upt_conv_Cons)
  note t0 = ingest_identifier_scheme
              [where env = example_env and s = fresh_service and event_id = "''event''"
                 and photo_id = "''p''" and image_url = "Some ''two-faces''"
                 and url = "''two-faces''" and vecs = "[[- 0.6, 0.8], [- 0.8, 0.6]]" and d = 2]
  from t0 i0 c a0
  have r0: "fst (ingest example_env fresh_service ''event'' ''p'' (Some ''two-faces'') None)
              = Inr True"
    by simp
  with t0 c ids0 f
  have s0: "scope_ids (snd (ingest example_env fresh_service ''event'' ''p''
                               (Some ''two-faces'') None)) ''event'' = [''p#0'', ''p#1'']"
    by simp
  note t1 = ingest_identifier_scheme
              [where env = example_env and s = example_service and event_id = "''event''"
                 and photo_id = "''p''" and image_url = None and emb = "[3, 4]"
                 and image_url' = None and emb' = "[0, 1]"]
  from t1 i1 a1
  have r1: "fst (ingest example_env example_service ''event'' ''p'' None (Some [3, 4])) = Inr True"
    by blast
  with t1 ids1
  have s1: "scope_ids ?s1 ''event'' = [''p#0'', ''p#1'', ''p'']"
    by simp
  have a2: "scope_accepts ?s1 ''event'' (length [0, 1 :: real])"
    by (simp add: scope_accepts_def example_service_def ingest_def initialize_def
          store_rows_def get_or_create_index_def np_vstack_def index_add_def
          unit_normalize_def Let_def)
  from ingest_embedding_returns[OF i2 a2]
  have r2: "fst (ingest example_env ?s1 ''event'' ''p'' None (Some [0, 1])) = Inr True" .
  from t1 r1 r2 ids1
  have s2: "scope_ids (snd (ingest example_env ?s1 ''event'' ''p'' None (Some [0, 1]))) ''event''
              = [''p#0'', ''p#1'', ''p'', ''p'']"
    by simp
  from r0 c s0 r1 s1 s2 show ?thesis by blast
qed

end
